theory Spec2Isabelle
  imports Main "HOL-Library.AList" "HOL-Library.Sublist"
begin

section \<open>Strings and numbers as the script sees them\<close>

text \<open>
  JavaScript strings are modelled as \<^typ>\<open>string\<close>. A number is turned into a string
  by concatenation (\<^verbatim>\<open>currentId + '-' + injectCount\<close>,
  \<^verbatim>\<open>'...: ' + httpRequest.status\<close>); for the non-negative integers that occur this is
  the decimal numeral without leading zeros.
\<close>

definition digit_char :: "nat \<Rightarrow> char" where
  "digit_char d = char_of (48 + d)"

fun dec :: "nat \<Rightarrow> string" where
  "dec n = (if n < 10 then [digit_char n] else dec (n div 10) @ [digit_char (n mod 10)])"

declare dec.simps [simp del]

text \<open>
  \<^verbatim>\<open>injectCount++\<close> on a double: exact up to \<open>2^53 = 9007199254740992\<close>, where
  adding one no longer changes the value.
\<close>

definition js_incr :: "nat \<Rightarrow> nat" where
  "js_incr n = (if int n < 9007199254740992 then Suc n else n)"

text \<open>Substring test, as the attribute selector \<^verbatim>\<open>[attr*="val"]\<close> needs it.\<close>

fun starts_with :: "string \<Rightarrow> string \<Rightarrow> bool" where
  "starts_with s [] = True"
| "starts_with [] (p # ps) = False"
| "starts_with (c # cs) (p # ps) = (c = p \<and> starts_with cs ps)"

fun contains_str :: "string \<Rightarrow> string \<Rightarrow> bool" where
  "contains_str [] p = (p = [])"
| "contains_str (c # cs) p = (starts_with (c # cs) p \<or> contains_str cs p)"

text \<open>The test \<^verbatim>\<open>(/\.svg/i).test(imgUrl)\<close>: the four characters \<^verbatim>\<open>.svg\<close> occur
  somewhere in the string, letters in either case. The pattern has no anchor.\<close>

fun svg_regex_test :: "string \<Rightarrow> bool" where
  "svg_regex_test (a # b # c # d # rest) =
     ((a = CHR ''.'' \<and> (b = CHR ''s'' \<or> b = CHR ''S'') \<and> (c = CHR ''v'' \<or> c = CHR ''V'')
        \<and> (d = CHR ''g'' \<or> d = CHR ''G''))
      \<or> svg_regex_test (b # c # d # rest))"
| "svg_regex_test _ = False"

text \<open>A value read with \<^verbatim>\<open>getAttribute\<close> is a string or \<^verbatim>\<open>null\<close>; where the script
  uses it as a string (regular expression test, concatenation, property key) \<^verbatim>\<open>null\<close>
  becomes the four characters \<^verbatim>\<open>null\<close>.\<close>

definition js_str :: "string option \<Rightarrow> string" where
  "js_str v = (case v of None \<Rightarrow> ''null'' | Some s \<Rightarrow> s)"

section \<open>Document trees\<close>

text \<open>
  An element node carries its object identity (a number, fresh for every node the browser
  creates), its namespace, its local name (\<open>tag\<close>: the selectors of the script name
  elements by their local name), its attributes in order, and its children. The class of
  an element object follows from its namespace and local name. Text nodes carry their
  data. Comments and processing instructions are not modelled.
\<close>

datatype node =
    Element (nid: nat) (namespaceURI: string) (tag: string)
            (attrs: "(string \<times> string) list") (children: "node list")
  | Text string

definition svg_ns :: string where
  "svg_ns = ''http://www.w3.org/2000/svg''"

definition html_ns :: string where
  "html_ns = ''http://www.w3.org/1999/xhtml''"

fun is_element :: "node \<Rightarrow> bool" where
  "is_element (Element i ns t a cs) = True"
| "is_element (Text s) = False"

definition getAttribute :: "node \<Rightarrow> string \<Rightarrow> string option" where
  "getAttribute e name = (case e of Element i ns t a cs \<Rightarrow> map_of a name | Text s \<Rightarrow> None)"

definition setAttribute :: "string \<Rightarrow> string \<Rightarrow> node \<Rightarrow> node" where
  "setAttribute name v e =
     (case e of Element i ns t a cs \<Rightarrow> Element i ns t (AList.update name v a) cs | Text s \<Rightarrow> Text s)"

definition removeAttribute :: "string \<Rightarrow> node \<Rightarrow> node" where
  "removeAttribute name e =
     (case e of Element i ns t a cs \<Rightarrow> Element i ns t (AList.delete name a) cs | Text s \<Rightarrow> Text s)"

fun textContent :: "node \<Rightarrow> string" where
  "textContent (Text s) = s"
| "textContent (Element i ns t a cs) = concat (map textContent cs)"

text \<open>All element nodes of a subtree in document order, the root first.\<close>

fun elements :: "node \<Rightarrow> node list" where
  "elements (Text s) = []"
| "elements (Element i ns t a cs) = Element i ns t a cs # concat (map elements cs)"

text \<open>What \<^verbatim>\<open>querySelectorAll\<close> ranges over: the element descendants of the node it is
  called on, never the node itself.\<close>

fun descendants :: "node \<Rightarrow> node list" where
  "descendants (Text s) = []"
| "descendants (Element i ns t a cs) = concat (map elements cs)"

text \<open>\<open>is_node i c\<close>: the node \<open>c\<close> is the element object with identity \<open>i\<close>.\<close>

fun is_node :: "nat \<Rightarrow> node \<Rightarrow> bool" where
  "is_node i (Element j ns t a cs) = (j = i)"
| "is_node i (Text s) = False"

text \<open>\<^verbatim>\<open>cloneNode(true)\<close>: a deep copy whose element nodes are new objects. The first
  argument is the next unused identity; the next unused identity afterwards is returned
  with the copy.\<close>

fun cloneNode :: "nat \<Rightarrow> node \<Rightarrow> node \<times> nat"
  and cloneNodes :: "nat \<Rightarrow> node list \<Rightarrow> node list \<times> nat" where
  "cloneNode n (Text s) = (Text s, n)"
| "cloneNode n (Element i ns t a cs) =
     (case cloneNodes (Suc n) cs of (cs', n') \<Rightarrow> (Element n ns t a cs', n'))"
| "cloneNodes n [] = ([], n)"
| "cloneNodes n (c # cs) =
     (case cloneNode n c of (c', n1) \<Rightarrow>
        (case cloneNodes n1 cs of (cs', n2) \<Rightarrow> (c' # cs', n2)))"

text \<open>Apply a change of attributes to every element of a subtree; the function is given
  the identity of the element it is changing.\<close>

fun map_attrs :: "(nat \<Rightarrow> (string \<times> string) list \<Rightarrow> (string \<times> string) list) \<Rightarrow> node \<Rightarrow> node" where
  "map_attrs f (Text s) = Text s"
| "map_attrs f (Element i ns t a cs) = Element i ns t (f i a) (map (map_attrs f) cs)"

fun map_descendant_attrs ::
  "(nat \<Rightarrow> (string \<times> string) list \<Rightarrow> (string \<times> string) list) \<Rightarrow> node \<Rightarrow> node" where
  "map_descendant_attrs f (Text s) = Text s"
| "map_descendant_attrs f (Element i ns t a cs) = Element i ns t a (map (map_attrs f) cs)"

text \<open>A change of the attributes of the one element object \<open>d\<close>, wherever it is in the
  tree.\<close>

definition update_element ::
  "nat \<Rightarrow> ((string \<times> string) list \<Rightarrow> (string \<times> string) list) \<Rightarrow> node \<Rightarrow> node" where
  "update_element d g = map_attrs (\<lambda>i a. if i = d then g a else a)"

definition find_element :: "nat \<Rightarrow> node list \<Rightarrow> node option" where
  "find_element i forest = find (is_node i) (concat (map elements forest))"

section \<open>Module state and its environment\<close>

datatype exn = TypeError | NotFoundError | SyntaxError | ScriptError string

text \<open>Values handed to the caller's callback.\<close>

datatype jsval = Undefined | Null | Str string | NodeRef nat

text \<open>What \<^verbatim>\<open>loadSvg\<close> hands to its callback: nothing, a message, or a cloned tree.\<close>

datatype loaded = NoArg | Message string | Svg node

text \<open>
  The function that \<^verbatim>\<open>SVGInjector\<close> passes to \<^verbatim>\<open>loadSvg\<close> is a closure over
  \<^verbatim>\<open>el\<close>, \<^verbatim>\<open>evalScripts\<close>, \<^verbatim>\<open>callback\<close> and \<^verbatim>\<open>imgUrl\<close>; it is represented by
  the values it captured. The caller's callback is opaque: it is named by a number, and
  \<open>None\<close> is the default \<^verbatim>\<open>Function.prototype\<close>, which does nothing.
\<close>

record continuation =
  el :: nat
  evalScripts :: string
  callback :: "nat option"
  imgUrl :: string

datatype cache_entry = Loading | Loaded node

record xhr =
  xhr_url :: string
  xhr_callback :: continuation
  xhr_done :: bool

text \<open>
  The first five fields are the module's variables. \<open>document\<close> is every tree that
  exists outside the module (the page first; detached nodes are roots of their own),
  \<open>fresh\<close> the next unused node identity, \<open>timers\<close> the pending
  \<^verbatim>\<open>setTimeout(..., 0)\<close> tasks of \<^verbatim>\<open>processRequestQueue\<close> as (url, index), \<open>requests\<close>
  the \<^verbatim>\<open>XMLHttpRequest\<close> objects sent so far. The remaining fields are logs of what was
  observable: calls of the caller's callbacks with their arguments, script payloads run,
  invocations of \<^verbatim>\<open>loadSvg\<close> callbacks with their argument, and exceptions that
  escaped a task. The caller's callbacks and the script payloads are opaque: the model
  notes that they ran, and takes it that they neither call back into the module nor touch
  its variables or the page.
\<close>

record state =
  svgCache :: "string \<rightharpoonup> cache_entry"
  injectCount :: nat
  injectedElements :: "nat option list"
  requestQueue :: "string \<rightharpoonup> continuation list"
  ranScripts :: "string set"
  document :: "node list"
  fresh :: nat
  timers :: "(string \<times> nat) list"
  requests :: "xhr list"
  called :: "(nat \<times> jsval list) list"
  executed :: "string list"
  delivered :: "(continuation \<times> loaded) list"
  uncaught :: "exn list"

text \<open>The page's environment. Whether running a script payload throws is up to the
  payload; the model takes it as a function of the payload's text. \<open>selector\<close> is the
  browser's \<^verbatim>\<open>querySelectorAll\<close> for the selector strings that the model does not read
  itself: given the selector and the tree it is called on, it throws or returns the
  identities of the matched descendants in document order.\<close>

record env =
  isLocal :: bool
  hasSvgSupport :: bool
  hasXMLHttpRequest :: bool
  hasDOMParser :: bool
  script_throws :: "string \<Rightarrow> bool"
  selector :: "string \<Rightarrow> node \<Rightarrow> exn + nat list"

definition init :: "node list \<Rightarrow> nat \<Rightarrow> state" where
  "init page next_id =
     \<lparr> svgCache = Map.empty, injectCount = 0, injectedElements = [], requestQueue = Map.empty,
       ranScripts = {}, document = page, fresh = next_id, timers = [], requests = [],
       called = [], executed = [], delivered = [], uncaught = [] \<rparr>"

definition call :: "nat option \<Rightarrow> jsval list \<Rightarrow> state \<Rightarrow> state" where
  "call cb args st = (case cb of None \<Rightarrow> st | Some c \<Rightarrow> st\<lparr>called := called st @ [(c, args)]\<rparr>)"

section \<open>Identifier rewriting (lines 156-166, 231-253)\<close>

definition iriElementsAndProperties :: "(string \<times> string list) list" where
  "iriElementsAndProperties =
     [(''clipPath'', [''clip-path'']),
      (''color-profile'', [''color-profile'']),
      (''cursor'', [''cursor'']),
      (''filter'', [''filter'']),
      (''linearGradient'', [''fill'', ''stroke'']),
      (''marker'', [''marker'', ''marker-start'', ''marker-mid'', ''marker-end'']),
      (''mask'', [''mask'']),
      (''pattern'', [''fill'', ''stroke'']),
      (''radialGradient'', [''fill'', ''stroke''])]"

text \<open>The selector \<^verbatim>\<open>'defs ' + element + '[id]'\<close>: elements with that tag and an
  \<^verbatim>\<open>id\<close> attribute that have an ancestor with tag \<^verbatim>\<open>defs\<close>. The flag says whether
  such an ancestor has been passed.\<close>

fun defs_scoped :: "bool \<Rightarrow> string \<Rightarrow> node \<Rightarrow> node list" where
  "defs_scoped inside element (Text s) = []"
| "defs_scoped inside element (Element i ns t a cs) =
     (if inside \<and> t = element \<and> map_of a ''id'' \<noteq> None then [Element i ns t a cs] else [])
     @ concat (map (defs_scoped (inside \<or> t = ''defs'') element) cs)"

fun querySelectorAll_defs :: "string \<Rightarrow> node \<Rightarrow> node list" where
  "querySelectorAll_defs element (Text s) = []"
| "querySelectorAll_defs element (Element i ns t a cs) =
     concat (map (defs_scoped (t = ''defs'') element) cs)"

text \<open>
  The selector \<^verbatim>\<open>'[' + property + '*="' + currentId + '"]'\<close> puts the identifier
  between double quotes. An identifier without a double quote, a backslash, a line break
  (line feed, carriage return, form feed) or a NUL stands for itself there: it is \<open>plain\<close>,
  and the selector matches the elements whose attribute \<open>property\<close> has a value that
  contains it (none when the identifier is empty). The properties are those of the table,
  which are names of the selector syntax.
\<close>

definition plain :: "string \<Rightarrow> bool" where
  "plain v = list_all (\<lambda>c. c \<noteq> CHR 0x22 \<and> c \<noteq> CHR 0x5C \<and> c \<noteq> CHR 0x0A \<and> c \<noteq> CHR 0x0D
                             \<and> c \<noteq> CHR 0x0C \<and> c \<noteq> CHR 0x00) v"

definition attr_contains :: "(string \<times> string) list \<Rightarrow> string \<Rightarrow> string \<Rightarrow> bool" where
  "attr_contains a property v =
     (case map_of a property of None \<Rightarrow> False | Some x \<Rightarrow> v \<noteq> [] \<and> contains_str x v)"

definition attribute_selector :: "string \<Rightarrow> string \<Rightarrow> string" where
  "attribute_selector property currentId =
     ''['' @ property @ ''*='' @ [CHR 0x22] @ currentId @ [CHR 0x22] @ '']''"

definition url_ref :: "string \<Rightarrow> string" where
  "url_ref newId = ''url(#'' @ newId @ '')''"

text \<open>A loop whose body can throw: the first exception ends it.\<close>

fun for_each :: "('a \<Rightarrow> 'b \<Rightarrow> exn + 'b) \<Rightarrow> 'a list \<Rightarrow> 'b \<Rightarrow> exn + 'b" where
  "for_each f [] s = Inr s"
| "for_each f (x # xs) s = (case f x s of Inl e \<Rightarrow> Inl e | Inr s' \<Rightarrow> for_each f xs s')"

text \<open>Lines 243-249 for one property: every matched descendant gets the new reference.
  For an identifier that is not plain the selector is another string than the one meant:
  the browser may reject it (\<^verbatim>\<open>querySelectorAll\<close> throws) or read it in its own way; that
  is left to \<open>selector\<close>.\<close>

definition rewrite_references ::
  "env \<Rightarrow> string \<Rightarrow> string \<Rightarrow> string \<Rightarrow> node \<Rightarrow> exn + node" where
  "rewrite_references env property currentId newId svg =
     (if plain currentId
      then Inr (map_descendant_attrs
                  (\<lambda>i a. if attr_contains a property currentId
                         then AList.update property (url_ref newId) a else a) svg)
      else (case selector env (attribute_selector property currentId) svg of
              Inl e \<Rightarrow> Inl e
            | Inr referencingElements \<Rightarrow>
                Inr (fold (\<lambda>m. update_element m (AList.update property (url_ref newId)))
                          referencingElements svg)))"

text \<open>\<^verbatim>\<open>elementDefs[i].id\<close>: the current \<^verbatim>\<open>id\<close> attribute of that element object, the
  empty string when it has none.\<close>

definition element_id :: "nat \<Rightarrow> node \<Rightarrow> string" where
  "element_id d svg =
     (case find_element d [svg] of
        None \<Rightarrow> []
      | Some e \<Rightarrow> (case getAttribute e ''id'' of None \<Rightarrow> [] | Some v \<Rightarrow> v))"

text \<open>The body of the loop over \<^verbatim>\<open>elementDefs\<close> (lines 238-251).\<close>

definition rename_def :: "env \<Rightarrow> nat \<Rightarrow> string list \<Rightarrow> nat \<Rightarrow> node \<Rightarrow> exn + node" where
  "rename_def env count properties d svg =
     (let currentId = element_id d svg;
          newId = currentId @ ''-'' @ dec count
      in case for_each (\<lambda>property. rewrite_references env property currentId newId)
                       properties svg of
           Inl e \<Rightarrow> Inl e
         | Inr svg1 \<Rightarrow> Inr (update_element d (AList.update ''id'' newId) svg1))"

text \<open>One key of the table (lines 233-252); \<^verbatim>\<open>elementDefs\<close> is a static list.\<close>

definition rename_category :: "env \<Rightarrow> nat \<Rightarrow> string \<times> string list \<Rightarrow> node \<Rightarrow> exn + node" where
  "rename_category env count entry svg =
     (case entry of (element, properties) \<Rightarrow>
        for_each (rename_def env count properties)
                 (map nid (querySelectorAll_defs element svg)) svg)"

definition rewrite_ids :: "env \<Rightarrow> nat \<Rightarrow> node \<Rightarrow> exn + node" where
  "rewrite_ids env count svg = for_each (rename_category env count) iriElementsAndProperties svg"

section \<open>Scripts, styles and the replacement (lines 255-322)\<close>

definition querySelectorAll_tag :: "string \<Rightarrow> node \<Rightarrow> node list" where
  "querySelectorAll_tag name svg = filter (\<lambda>e. tag e = name) (descendants svg)"

text \<open>\<^verbatim>\<open>svg.removeChild(child)\<close> removes a child of \<open>svg\<close> itself and throws
  \<^verbatim>\<open>NotFoundError\<close> for any other node.\<close>

fun removeChild :: "node \<Rightarrow> nat \<Rightarrow> exn + node" where
  "removeChild (Text s) c = Inl NotFoundError"
| "removeChild (Element i ns t a cs) c =
     (if list_ex (is_node c) cs
      then Inr (Element i ns t a (filter (\<lambda>x. \<not> is_node c x) cs))
      else Inl NotFoundError)"

text \<open>\<^verbatim>\<open>!scriptType || scriptType === 'application/ecmascript' || scriptType ===
  'application/javascript'\<close>, for the result of \<^verbatim>\<open>getAttribute('type')\<close>.\<close>

definition executable_type :: "string option \<Rightarrow> bool" where
  "executable_type scriptType =
     (scriptType = None \<or> scriptType = Some [] \<or> scriptType = Some ''application/ecmascript''
      \<or> scriptType = Some ''application/javascript'')"

text \<open>The loop of lines 266-282 over the static list \<^verbatim>\<open>scripts\<close>. The payload is
  \<^verbatim>\<open>innerText || textContent\<close>; an element of an XML document has no \<^verbatim>\<open>innerText\<close>,
  so it is the text content. The payload is pushed before the element is removed.\<close>

fun prune_scripts :: "node list \<Rightarrow> node \<Rightarrow> string list \<Rightarrow> exn + (node \<times> string list)" where
  "prune_scripts [] svg scriptsToEval = Inr (svg, scriptsToEval)"
| "prune_scripts (s # rest) svg scriptsToEval =
     (if executable_type (getAttribute s ''type'')
      then (case removeChild svg (nid s) of
              Inl e \<Rightarrow> Inl e
            | Inr svg' \<Rightarrow> prune_scripts rest svg' (scriptsToEval @ [textContent s]))
      else prune_scripts rest svg scriptsToEval)"

text \<open>The loop of lines 286-295: \<^verbatim>\<open>new Function(text)(window)\<close> for each payload in
  turn, with nothing around it to catch what it throws.\<close>

fun eval_scripts :: "env \<Rightarrow> string list \<Rightarrow> state \<Rightarrow> exn option \<times> state" where
  "eval_scripts env [] st = (None, st)"
| "eval_scripts env (s # rest) st =
     (let st' = st\<lparr>executed := executed st @ [s]\<rparr>
      in if script_throws env s then (Some (ScriptError s), st')
         else eval_scripts env rest st')"

text \<open>Lines 285-299.\<close>

definition run_scripts :: "env \<Rightarrow> string \<Rightarrow> string \<Rightarrow> string list \<Rightarrow> state \<Rightarrow> exn option \<times> state" where
  "run_scripts env policy url scriptsToEval st =
     (if scriptsToEval \<noteq> [] \<and> (policy = ''always'' \<or> (policy = ''once'' \<and> url \<notin> ranScripts st))
      then (case eval_scripts env scriptsToEval st of
              (Some e, st') \<Rightarrow> (Some e, st')
            | (None, st') \<Rightarrow> (None, st'\<lparr>ranScripts := insert url (ranScripts st')\<rparr>))
      else (None, st))"

text \<open>\<^verbatim>\<open>styleTag.textContent += ''\<close> replaces the children of a style element by one
  text node holding its text content (by none when that is empty).\<close>

fun refresh_style :: "node \<Rightarrow> node" where
  "refresh_style (Text s) = Text s"
| "refresh_style (Element i ns t a cs) =
     (if t = ''style''
      then Element i ns t a (if concat (map textContent cs) = [] then []
                          else [Text (concat (map textContent cs))])
      else Element i ns t a (map refresh_style cs))"

fun refresh_styles :: "node \<Rightarrow> node" where
  "refresh_styles (Text s) = Text s"
| "refresh_styles (Element i ns t a cs) = Element i ns t a (map refresh_style cs)"

text \<open>\<^verbatim>\<open>el.parentNode\<close> is \<^verbatim>\<open>null\<close> unless \<open>el\<close> is a child of some element.\<close>

definition has_parent :: "nat \<Rightarrow> node list \<Rightarrow> bool" where
  "has_parent e forest =
     list_ex (\<lambda>p. case p of Element i ns t a cs \<Rightarrow> list_ex (is_node e) cs | Text s \<Rightarrow> False)
             (concat (map elements forest))"

fun put_in_place :: "node \<Rightarrow> nat \<Rightarrow> node \<Rightarrow> node" where
  "put_in_place new old (Text s) = Text s"
| "put_in_place new old (Element i ns t a cs) =
     Element i ns t a (map (\<lambda>c. if is_node old c then new else put_in_place new old c) cs)"

text \<open>\<^verbatim>\<open>el.parentNode.replaceChild(svg, el)\<close>: a \<^verbatim>\<open>TypeError\<close> when \<open>el\<close> has no parent;
  otherwise \<open>svg\<close> takes the place of \<open>el\<close>, and \<open>el\<close> becomes a detached root.\<close>

definition replaceChild :: "node \<Rightarrow> nat \<Rightarrow> node list \<Rightarrow> exn + node list" where
  "replaceChild svg e forest =
     (if has_parent e forest
      then Inr (map (put_in_place svg e) forest
                @ (case find_element e forest of None \<Rightarrow> [] | Some n \<Rightarrow> [n]))
      else Inl TypeError)"

text \<open>\<^verbatim>\<open>delete injectedElements[injectedElements.indexOf(el)]\<close> leaves a hole at the first
  position that holds \<open>el\<close>.\<close>

fun delete_first :: "nat \<Rightarrow> nat option list \<Rightarrow> nat option list" where
  "delete_first e [] = []"
| "delete_first e (x # xs) = (if x = Some e then None # xs else x # delete_first e xs)"

text \<open>A reference to a node, as a value.\<close>

fun node_ref :: "node \<Rightarrow> jsval" where
  "node_ref (Element i ns t a cs) = NodeRef i"
| "node_ref (Text s) = Undefined"

text \<open>Lines 226-256: stretch the clone, make its identifiers unique, drop the stray
  namespace attribute.\<close>

definition prepare :: "env \<Rightarrow> nat \<Rightarrow> node \<Rightarrow> exn + node" where
  "prepare env count svg =
     (case rewrite_ids env count
             (setAttribute ''preserveAspectRatio'' ''none''
                (setAttribute ''height'' ''100%'' (setAttribute ''width'' ''100%'' svg))) of
        Inl e \<Rightarrow> Inl e
      | Inr svg2 \<Rightarrow> Inr (removeAttribute ''xmlns:a'' svg2))"

text \<open>Lines 262-282: find the scripts, then prune them.\<close>

definition take_scripts :: "node \<Rightarrow> exn + (node \<times> string list)" where
  "take_scripts svg = prune_scripts (querySelectorAll_tag ''script'' svg) svg []"

text \<open>Lines 226-282 in one: the clone is prepared, then its scripts are taken.\<close>

definition prepared :: "env \<Rightarrow> nat \<Rightarrow> node \<Rightarrow> exn + (node \<times> string list)" where
  "prepared env count svg =
     (case prepare env count svg of Inl e \<Rightarrow> Inl e | Inr svg3 \<Rightarrow> take_scripts svg3)"

text \<open>The function passed to \<^verbatim>\<open>loadSvg\<close> (lines 219-323).\<close>

definition inject :: "env \<Rightarrow> continuation \<Rightarrow> loaded \<Rightarrow> state \<Rightarrow> exn option \<times> state" where
  "inject env k arg st =
     (case arg of
        NoArg \<Rightarrow> (None, call (callback k) [Undefined] st)
      | Message m \<Rightarrow> (None, call (callback k) [Str m] st)
      | Svg svg \<Rightarrow>
          (case prepared env (injectCount st) svg of
             Inl e \<Rightarrow> (Some e, st)
           | Inr (svg4, scriptsToEval) \<Rightarrow>
               (case run_scripts env (evalScripts k) (imgUrl k) scriptsToEval st of
                  (Some e, st1) \<Rightarrow> (Some e, st1)
                | (None, st1) \<Rightarrow>
                    (case replaceChild (refresh_styles svg4) (el k) (document st1) of
                       Inl e \<Rightarrow> (Some e, st1)
                     | Inr forest \<Rightarrow>
                         (None,
                          call (callback k) [Null, node_ref (refresh_styles svg4)]
                            (st1\<lparr>document := forest,
                                 injectedElements := delete_first (el k) (injectedElements st1),
                                 injectCount := js_incr (injectCount st1)\<rparr>))))))"

section \<open>The cache and the request queue (lines 26-141)\<close>

text \<open>Calling a \<^verbatim>\<open>loadSvg\<close> callback; the call is noted in \<open>delivered\<close>.\<close>

definition invoke :: "env \<Rightarrow> continuation \<Rightarrow> loaded \<Rightarrow> state \<Rightarrow> exn option \<times> state" where
  "invoke env k arg st = inject env k arg (st\<lparr>delivered := delivered st @ [(k, arg)]\<rparr>)"

text \<open>Run the second step unless the first one threw.\<close>

definition and_then ::
  "exn option \<times> state \<Rightarrow> (state \<Rightarrow> exn option \<times> state) \<Rightarrow> exn option \<times> state" where
  "and_then r f = (case r of (Some e, st) \<Rightarrow> (Some e, st) | (None, st) \<Rightarrow> f st)"

definition queueRequest :: "string \<Rightarrow> continuation \<Rightarrow> state \<Rightarrow> state" where
  "queueRequest url k st =
     st\<lparr>requestQueue := (requestQueue st)(url \<mapsto>
          (case requestQueue st url of None \<Rightarrow> [] | Some q \<Rightarrow> q) @ [k])\<rparr>"

text \<open>\<^verbatim>\<open>processRequestQueue\<close> only sets timers, one for each index of the queue.\<close>

definition processRequestQueue :: "string \<Rightarrow> state \<Rightarrow> exn option \<times> state" where
  "processRequestQueue url st =
     (case requestQueue st url of
        None \<Rightarrow> (Some TypeError, st)
      | Some q \<Rightarrow> (None, st\<lparr>timers := timers st @ map (\<lambda>i. (url, i)) [0..<length q]\<rparr>))"

text \<open>\<^verbatim>\<open>svgCache[url] instanceof SVGSVGElement\<close>: the object is an element with local
  name \<^verbatim>\<open>svg\<close> in the SVG namespace. An \<^verbatim>\<open>svg\<close> root that a file declares without that
  namespace is a plain \<^verbatim>\<open>Element\<close>.\<close>

fun is_SVGSVGElement :: "node \<Rightarrow> bool" where
  "is_SVGSVGElement (Element i ns t a cs) = (ns = svg_ns \<and> t = ''svg'')"
| "is_SVGSVGElement (Text s) = False"

text \<open>\<^verbatim>\<open>cloneSvg(svgCache[url])\<close>: the seed object \<^verbatim>\<open>{}\<close> has no \<^verbatim>\<open>cloneNode\<close>.\<close>

definition cloneSvg :: "cache_entry option \<Rightarrow> state \<Rightarrow> exn + (node \<times> state)" where
  "cloneSvg entry st =
     (case entry of
        Some (Loaded n) \<Rightarrow> (case cloneNode (fresh st) n of (c, f) \<Rightarrow> Inr (c, st\<lparr>fresh := f\<rparr>))
      | _ \<Rightarrow> Inl TypeError)"

definition loadSvg :: "env \<Rightarrow> string \<Rightarrow> continuation \<Rightarrow> state \<Rightarrow> exn option \<times> state" where
  "loadSvg env url k st =
     (case svgCache st url of
        Some entry \<Rightarrow>
          (if (case entry of Loaded n \<Rightarrow> is_SVGSVGElement n | Loading \<Rightarrow> False)
           then (case cloneSvg (Some entry) st of
                   Inl e \<Rightarrow> (Some e, st)
                 | Inr (c, st') \<Rightarrow> invoke env k (Svg c) st')
           else (None, queueRequest url k st))
      | None \<Rightarrow>
          (if \<not> hasXMLHttpRequest env
           then invoke env k (Message ''Browser does not support XMLHttpRequest'') st
           else (None,
                 (queueRequest url k (st\<lparr>svgCache := (svgCache st)(url \<mapsto> Loading)\<rparr>))
                   \<lparr>requests := requests st @ [\<lparr>xhr_url = url, xhr_callback = k, xhr_done = False\<rparr>]\<rparr>)))"

text \<open>
  What the request came back with. \<open>responseXML\<close> is \<^verbatim>\<open>null\<close>, a \<^verbatim>\<open>Document\<close> with
  its root element, or an object that is not an instance of \<^verbatim>\<open>Document\<close>; \<open>parsedText\<close>
  is what \<^verbatim>\<open>DOMParser.parseFromString(responseText, 'text/xml')\<close> would give.
\<close>

datatype responseXML = NoXML | XMLDocument node | XMLObject

datatype parsed = ParserThrows | ParsedDocument node

record response =
  status :: nat
  statusText :: string
  responseXML :: responseXML
  parsedText :: parsed

text \<open>Storing a document's root element in the cache; the nodes of a document that has
  just arrived are new objects.\<close>

definition cache_root :: "string \<Rightarrow> node \<Rightarrow> state \<Rightarrow> state" where
  "cache_root url root st =
     (case cloneNode (fresh st) root of (n, f) \<Rightarrow>
        st\<lparr>svgCache := (svgCache st)(url \<mapsto> Loaded n), fresh := f\<rparr>)"

text \<open>\<^verbatim>\<open>onreadystatechange\<close> at \<^verbatim>\<open>readyState === 4\<close> (lines 72-131), for the
  request's \<open>url\<close> and the \<open>callback\<close> of the call of \<^verbatim>\<open>loadSvg\<close> that sent it.\<close>

definition onreadystatechange ::
  "env \<Rightarrow> string \<Rightarrow> continuation \<Rightarrow> response \<Rightarrow> state \<Rightarrow> exn option \<times> state" where
  "onreadystatechange env url k r st =
     (if status r = 404 \<or> responseXML r = NoXML
      then and_then (invoke env k (Message (''Unable to load SVG file: '' @ url)) st) (\<lambda>st.
           and_then (if isLocal env
                     then invoke env k (Message ''Note: SVG injection ajax calls do not work locally without adjusting security setting in your browser. Or consider using a local webserver.'') st
                     else (None, st)) (\<lambda>st.
           invoke env k NoArg st))
      else if status r = 200 \<or> (isLocal env \<and> status r = 0)
      then (case responseXML r of
              XMLDocument root \<Rightarrow> processRequestQueue url (cache_root url root st)
            | _ \<Rightarrow>
                (if hasDOMParser env
                 then (case parsedText r of
                         ParserThrows \<Rightarrow> invoke env k (Message (''Unable to parse SVG file: '' @ url)) st
                       | ParsedDocument root \<Rightarrow>
                           (if filter (\<lambda>e. tag e = ''parsererror'') (elements root) \<noteq> []
                            then invoke env k (Message (''Unable to parse SVG file: '' @ url)) st
                            else processRequestQueue url (cache_root url root st)))
                 else processRequestQueue url st))
      else invoke env k
             (Message (''There was a problem injecting the SVG: '' @ dec (status r) @ '' '' @ statusText r)) st)"

text \<open>A task of the event loop; what it throws is noted and goes no further.\<close>

definition task :: "exn option \<times> state \<Rightarrow> state" where
  "task r = (case r of (None, st) \<Rightarrow> st | (Some e, st) \<Rightarrow> st\<lparr>uncaught := uncaught st @ [e]\<rparr>)"

text \<open>The request with number \<open>i\<close> completes with response \<open>r\<close>.\<close>

definition complete :: "env \<Rightarrow> nat \<Rightarrow> response \<Rightarrow> state \<Rightarrow> state" where
  "complete env i r st =
     (if i < length (requests st) \<and> \<not> xhr_done (requests st ! i)
      then task (onreadystatechange env (xhr_url (requests st ! i)) (xhr_callback (requests st ! i)) r
                   (st\<lparr>requests := (requests st)[i := (requests st ! i)\<lparr>xhr_done := True\<rparr>]\<rparr>))
      else st)"

text \<open>The oldest timer fires: \<^verbatim>\<open>requestQueue[url][index](cloneSvg(svgCache[url]))\<close>.\<close>

definition timer_body :: "env \<Rightarrow> string \<Rightarrow> nat \<Rightarrow> state \<Rightarrow> exn option \<times> state" where
  "timer_body env url index st =
     (case requestQueue st url of
        None \<Rightarrow> (Some TypeError, st)
      | Some q \<Rightarrow>
          (case cloneSvg (svgCache st url) st of
             Inl e \<Rightarrow> (Some e, st)
           | Inr (c, st') \<Rightarrow>
               (if index < length q then invoke env (q ! index) (Svg c) st'
                else (Some TypeError, st'))))"

definition run_timer :: "env \<Rightarrow> state \<Rightarrow> state" where
  "run_timer env st =
     (case timers st of
        [] \<Rightarrow> st
      | (url, index) # rest \<Rightarrow> task (timer_body env url index (st\<lparr>timers := rest\<rparr>)))"


section \<open>The exported function (lines 174-324)\<close>

text \<open>\<open>policy\<close> and \<open>cb\<close> are the optional arguments; \<open>None\<close> is an argument left out.
  An \<open>e\<close> that names no element of the document is not an element object, and reading
  \<^verbatim>\<open>el.getAttribute\<close> fails.\<close>

definition SVGInjector ::
  "env \<Rightarrow> nat \<Rightarrow> string option \<Rightarrow> nat option \<Rightarrow> state \<Rightarrow> exn option \<times> state" where
  "SVGInjector env e policy cb st =
     (case find_element e (document st) of
        None \<Rightarrow> (Some TypeError, st)
      | Some placeholder \<Rightarrow>
          (let evalScripts = (case policy of None \<Rightarrow> ''always''
                              | Some p \<Rightarrow> if p = [] then ''always'' else p);
               imgUrl = getAttribute placeholder ''data-src''
           in if \<not> svg_regex_test (js_str imgUrl)
              then (None, call cb [Str (''Attempted to inject a file with a non-svg extension: ''
                                         @ js_str imgUrl)] st)
              else if \<not> hasSvgSupport env
              then (case getAttribute placeholder ''data-png'' of
                      None \<Rightarrow> (None, call cb [Str ''This browser does not support SVG and no PNG fallback was defined.''] st)
                    | Some pngFallback \<Rightarrow>
                        (if pngFallback = []
                         then (None, call cb [Str ''This browser does not support SVG and no PNG fallback was defined.''] st)
                         else (None, call cb [Null, NodeRef e]
                                 (st\<lparr>document :=
                                      map (update_element e
                                             (\<lambda>a. AList.update ''src'' pngFallback
                                                     (AList.update ''style'' ''width: 100%; height: 100%;'' a)))
                                          (document st)\<rparr>))))
              else if Some e \<in> set (injectedElements st)
              then (None, st)
              else loadSvg env (js_str imgUrl)
                     \<lparr>el = e, evalScripts = evalScripts, callback = cb, imgUrl = js_str imgUrl\<rparr>
                     (st\<lparr>injectedElements := injectedElements st @ [Some e],
                         document := map (update_element e (AList.update ''src'' [])) (document st)\<rparr>)))"

section \<open>The specification's words, and inputs to run the model on\<close>

text \<open>"Ends in the expected extension", as the specification puts the test of the
  locator.\<close>

definition has_svg_extension :: "string \<Rightarrow> bool" where
  "has_svg_extension url = (4 \<le> length url \<and> drop (length url - 4) url = ''.svg'')"

definition env0 :: env where
  "env0 = \<lparr> isLocal = False, hasSvgSupport = True, hasXMLHttpRequest = True,
            hasDOMParser = True, script_throws = (\<lambda>s. s = ''throw 1''),
            selector = (\<lambda>s t. Inl SyntaxError) \<rparr>"

definition two_placeholders :: "node list" where
  "two_placeholders =
     [Element 0 html_ns ''body'' []
        [Element 1 html_ns ''img'' [(''data-src'', ''a.svg'')] [],
         Element 2 html_ns ''img'' [(''data-src'', ''a.svg'')] []]]"

definition png_placeholders :: "node list" where
  "png_placeholders =
     [Element 0 html_ns ''body'' []
        [Element 1 html_ns ''img'' [(''data-src'', ''icon.svg.png'')] [],
         Element 2 html_ns ''img'' [(''data-src'', ''icon.png'')] []]]"

text \<open>A response: the identities inside its tree do not matter, since the nodes of a
  document that arrives are new objects (\<open>cache_root\<close>).\<close>

definition ok_response :: "node \<Rightarrow> response" where
  "ok_response root = \<lparr> status = 200, statusText = ''OK'', responseXML = XMLDocument root,
                         parsedText = ParsedDocument root \<rparr>"

definition not_found_response :: response where
  "not_found_response = \<lparr> status = 404, statusText = ''Not Found'', responseXML = NoXML,
                           parsedText = ParserThrows \<rparr>"

definition plain_svg :: node where
  "plain_svg = Element 0 svg_ns ''svg'' [(''xmlns'', svg_ns)] [Element 0 svg_ns ''rect'' [] []]"

definition first_consumer :: continuation where
  "first_consumer = \<lparr> el = 1, evalScripts = ''always'', callback = Some 7, imgUrl = ''a.svg'' \<rparr>"

definition second_consumer :: continuation where
  "second_consumer = \<lparr> el = 2, evalScripts = ''always'', callback = Some 8, imgUrl = ''a.svg'' \<rparr>"

definition one_requested :: state where
  "one_requested = snd (SVGInjector env0 1 None (Some 7) (init two_placeholders 3))"

definition both_requested :: state where
  "both_requested = snd (SVGInjector env0 2 None (Some 8) one_requested)"

definition removed_mid_flight :: state where
  "removed_mid_flight =
     (complete env0 0 (ok_response plain_svg) one_requested)
       \<lparr>document := [Element 0 html_ns ''body'' [] [Element 2 html_ns ''img'' [(''data-src'', ''a.svg'')] []],
                     Element 1 html_ns ''img'' [(''data-src'', ''a.svg''), (''src'', [])] []]\<rparr>"

definition svg_with_scripts :: node where
  "svg_with_scripts =
     Element 0 svg_ns ''svg'' [(''xmlns'', svg_ns)]
       [Element 0 svg_ns ''script'' [] [Text ''a = 1''],
        Element 0 svg_ns ''script'' [(''type'', ''application/javascript'')] [Text ''throw 1''],
        Element 0 svg_ns ''script'' [(''type'', ''application/ecmascript'')] [Text ''b = 2''],
        Element 0 svg_ns ''rect'' [] []]"

definition scripts_arrived :: state where
  "scripts_arrived = complete env0 0 (ok_response svg_with_scripts) one_requested"

text \<open>The state of a key as the specification names it, by the tests of lines 49 and
  50. The code has no state for a failed fetch: the seed object stays in the cache. A
  root that is no \<^verbatim>\<open>SVGSVGElement\<close> passes for the seed object.\<close>

datatype key_state = Absent | Pending | Ready

definition cache_state :: "state \<Rightarrow> string \<Rightarrow> key_state" where
  "cache_state st url =
     (case svgCache st url of
        None \<Rightarrow> Absent
      | Some Loading \<Rightarrow> Pending
      | Some (Loaded n) \<Rightarrow> if is_SVGSVGElement n then Ready else Pending)"

definition first_injected :: state where
  "first_injected = run_timer env0 (complete env0 0 (ok_response plain_svg) one_requested)"

definition nested_script_svg :: node where
  "nested_script_svg =
     Element 0 svg_ns ''svg'' [(''xmlns'', svg_ns)] [Element 0 svg_ns ''g'' [] [Element 0 svg_ns ''script'' [] [Text ''a = 1'']]]"

definition nested_script_arrived :: state where
  "nested_script_arrived = complete env0 0 (ok_response nested_script_svg) one_requested"

definition both_failed :: state where
  "both_failed = complete env0 0 not_found_response both_requested"

definition one_failed :: state where
  "one_failed = complete env0 0 not_found_response one_requested"

definition thrown_under_always :: state where
  "thrown_under_always = run_timer env0 scripts_arrived"

definition svg_two_scripts :: node where
  "svg_two_scripts =
     Element 0 svg_ns ''svg'' [(''xmlns'', svg_ns)]
       [Element 0 svg_ns ''script'' [] [Text ''a = 1''],
        Element 0 svg_ns ''script'' [(''type'', ''text/plain'')] [Text ''throw 1''],
        Element 0 svg_ns ''script'' [(''type'', ''application/ecmascript'')] [Text ''b = 2''],
        Element 0 svg_ns ''rect'' [] []]"

definition two_scripts_arrived :: state where
  "two_scripts_arrived = complete env0 0 (ok_response svg_two_scripts) one_requested"

definition once_consumer :: continuation where
  "once_consumer = \<lparr> el = 2, evalScripts = ''once'', callback = Some 8, imgUrl = ''a.svg'' \<rparr>"







section \<open>States that come later\<close>

text \<open>
  \<open>later env st st'\<close>: the module can get from \<open>st\<close> to \<open>st'\<close> by calls of
  \<open>SVGInjector\<close>, responses, timers, changes that others make to the page, and the noting
  of an exception that escaped. A state is reachable when it comes later than an initial
  one. \<open>queue_implies_cache\<close> is an invariant of the two tables; \<open>one_fetch\<close> says
  that no request has been sent for a key that is not in the cache, and at most one for
  a key that is; \<open>grows\<close> collects what no step undoes.
\<close>

definition queue_implies_cache :: "state \<Rightarrow> bool" where
  "queue_implies_cache st = (\<forall>u. requestQueue st u \<noteq> None \<longrightarrow> svgCache st u \<noteq> None)"

definition one_fetch :: "state \<Rightarrow> bool" where
  "one_fetch st =
     (\<forall>u. count_list (map xhr_url (requests st)) u \<le> (if svgCache st u = None then 0 else 1))"

definition grows :: "state \<Rightarrow> state \<Rightarrow> bool" where
  "grows st st' =
     (injectCount st \<le> injectCount st' \<and> ranScripts st \<subseteq> ranScripts st'
      \<and> (queue_implies_cache st \<longrightarrow> queue_implies_cache st')
      \<and> (one_fetch st \<longrightarrow> one_fetch st'))"

inductive later :: "env \<Rightarrow> state \<Rightarrow> state \<Rightarrow> bool" for env :: env where
  later_now: "later env st st"
| later_call: "later env st st1 \<Longrightarrow> later env st (snd (SVGInjector env e policy cb st1))"
| later_response: "later env st st1 \<Longrightarrow> later env st (complete env i r st1)"
| later_timer: "later env st st1 \<Longrightarrow> later env st (run_timer env st1)"
| later_page: "later env st st1 \<Longrightarrow> later env st (st1\<lparr>document := d\<rparr>)"
| later_noted: "later env st st1 \<Longrightarrow> later env st (st1\<lparr>uncaught := u\<rparr>)"



section \<open>The rewriting seen element by element\<close>

text \<open>
  What follows serves to state and prove what \<open>rewrite_ids\<close> does. When every identifier
  is plain no selector throws, and lines 231-253 are a function of the tree alone: the
  functions \<open>literal_rewrite_references\<close> to \<open>literal_prepare\<close> are \<open>rewrite_references\<close>
  to \<open>prepare\<close> for that case. \<open>desc_info\<close> lists the descendants of a tree in document
  order, each with the flag "has an ancestor \<^verbatim>\<open>defs\<close>", its identity, its tag and its
  attributes. \<open>plan\<close> lists, in the order in which \<open>rewrite_ids\<close> visits them, the
  definitions it renames, each as the properties of its table entry and the identifier it
  has before the renaming; \<open>scoped_ids\<close> are those identifiers. \<open>follow n p pl v\<close> is what becomes of a value \<open>v\<close> of the attribute \<open>p\<close>
  when the definitions of \<open>pl\<close> are renamed with counter \<open>n\<close>. \<open>mentions v i\<close> is
  the test of the selector \<^verbatim>\<open>[p*="i"]\<close> on the value \<open>v\<close>.
\<close>

type_synonym attrs = "(string \<times> string) list"

text \<open>Lines 243-249 for one property and a plain identifier.\<close>

definition literal_rewrite_references :: "string \<Rightarrow> string \<Rightarrow> string \<Rightarrow> node \<Rightarrow> node" where
  "literal_rewrite_references property currentId newId =
     map_descendant_attrs
       (\<lambda>i a. if attr_contains a property currentId
              then AList.update property (url_ref newId) a else a)"

text \<open>The body of the loop over \<^verbatim>\<open>elementDefs\<close>, the table entry and the table, when
  no selector throws.\<close>

definition literal_rename_def :: "nat \<Rightarrow> string list \<Rightarrow> nat \<Rightarrow> node \<Rightarrow> node" where
  "literal_rename_def count properties d svg =
     (let currentId = element_id d svg;
          newId = currentId @ ''-'' @ dec count;
          svg1 = fold (\<lambda>property. literal_rewrite_references property currentId newId) properties svg
      in update_element d (AList.update ''id'' newId) svg1)"

definition literal_rename_category :: "nat \<Rightarrow> string \<times> string list \<Rightarrow> node \<Rightarrow> node" where
  "literal_rename_category count entry svg =
     (case entry of (element, properties) \<Rightarrow>
        fold (literal_rename_def count properties)
             (map nid (querySelectorAll_defs element svg)) svg)"

definition literal_rewrite_ids :: "nat \<Rightarrow> node \<Rightarrow> node" where
  "literal_rewrite_ids count svg = fold (literal_rename_category count) iriElementsAndProperties svg"

definition literal_prepare :: "nat \<Rightarrow> node \<Rightarrow> node" where
  "literal_prepare count svg =
     removeAttribute ''xmlns:a''
       (literal_rewrite_ids count
          (setAttribute ''preserveAspectRatio'' ''none''
             (setAttribute ''height'' ''100%'' (setAttribute ''width'' ''100%'' svg))))"

text \<open>Every \<^verbatim>\<open>id\<close> attribute in the tree is plain.\<close>

definition plain_attrs :: "attrs \<Rightarrow> bool" where
  "plain_attrs a = (case map_of a ''id'' of None \<Rightarrow> True | Some v \<Rightarrow> plain v)"

definition plain_ids :: "node \<Rightarrow> bool" where
  "plain_ids svg = list_all (\<lambda>e. plain_attrs (attrs e)) (elements svg)"

text \<open>The tree that the function passed to \<^verbatim>\<open>loadSvg\<close> hands to \<^verbatim>\<open>replaceChild\<close>, when
  lines 226-282 throw nothing.\<close>

definition result_tree :: "env \<Rightarrow> nat \<Rightarrow> node \<Rightarrow> node option" where
  "result_tree env count svg =
     (case prepared env count svg of
        Inl e \<Rightarrow> None
      | Inr (svg4, scriptsToEval) \<Rightarrow> Some (refresh_styles svg4))"

fun info :: "bool \<Rightarrow> node \<Rightarrow> (bool \<times> nat \<times> string \<times> attrs) list" where
  "info inside (Text s) = []"
| "info inside (Element i ns t a cs) =
     (inside, i, t, a) # concat (map (info (inside \<or> t = ''defs'')) cs)"

fun desc_info :: "node \<Rightarrow> (bool \<times> nat \<times> string \<times> attrs) list" where
  "desc_info (Text s) = []"
| "desc_info (Element i ns t a cs) = concat (map (info (t = ''defs'')) cs)"

definition lift_attrs :: "(nat \<Rightarrow> attrs \<Rightarrow> attrs) \<Rightarrow> bool \<times> nat \<times> string \<times> attrs \<Rightarrow> bool \<times> nat \<times> string \<times> attrs" where
  "lift_attrs f h = (case h of (b, i, t, a) \<Rightarrow> (b, i, t, f i a))"

definition nids :: "node \<Rightarrow> nat list" where
  "nids svg = map nid (elements svg)"

definition ref_step :: "string \<Rightarrow> string \<Rightarrow> string \<Rightarrow> attrs \<Rightarrow> attrs" where
  "ref_step cur new p a = (if attr_contains a p cur then AList.update p (url_ref new) a else a)"

definition astep :: "nat \<Rightarrow> string list \<Rightarrow> string \<Rightarrow> nat \<Rightarrow> nat \<Rightarrow> attrs \<Rightarrow> attrs" where
  "astep n props cur d i a =
     (if i = d then AList.update ''id'' (cur @ ''-'' @ dec n) else (\<lambda>a. a))
       (fold (ref_step cur (cur @ ''-'' @ dec n)) props a)"

definition follow_step :: "nat \<Rightarrow> string \<Rightarrow> string list \<times> string \<Rightarrow> string \<Rightarrow> string" where
  "follow_step n p entry v =
     (case entry of (props, cur) \<Rightarrow>
        if p \<in> set props \<and> cur \<noteq> [] \<and> contains_str v cur
        then url_ref (cur @ ''-'' @ dec n) else v)"

definition follow :: "nat \<Rightarrow> string \<Rightarrow> (string list \<times> string) list \<Rightarrow> string \<Rightarrow> string" where
  "follow n p pl v = fold (follow_step n p) pl v"

definition pid :: "nat \<Rightarrow> (nat \<times> attrs) list \<Rightarrow> string" where
  "pid d ps = (case find (\<lambda>p. fst p = d) ps of
                 None \<Rightarrow> []
               | Some p \<Rightarrow> (case map_of (snd p) ''id'' of None \<Rightarrow> [] | Some v \<Rightarrow> v))"

definition pairs :: "node \<Rightarrow> (nat \<times> attrs) list" where
  "pairs svg = map (\<lambda>h. (fst (snd h), snd (snd (snd h)))) (desc_info svg)"

definition id_plan :: "node \<Rightarrow> (string list \<times> nat) list \<Rightarrow> (string list \<times> string) list" where
  "id_plan t L = map (\<lambda>(props, d). (props, element_id d t)) L"

definition rename_all :: "nat \<Rightarrow> (string list \<times> nat) list \<Rightarrow> node \<Rightarrow> node" where
  "rename_all n L t = fold (\<lambda>(props, d). literal_rename_def n props d) L t"

definition nid_plan :: "(string \<times> string list) list \<Rightarrow> node \<Rightarrow> (string list \<times> nat) list" where
  "nid_plan cats t =
     concat (map (\<lambda>(element, properties).
                    map (\<lambda>e. (properties, nid e)) (querySelectorAll_defs element t)) cats)"

definition scoped :: "string \<Rightarrow> bool \<times> nat \<times> string \<times> attrs \<Rightarrow> bool" where
  "scoped X h = (fst h \<and> fst (snd (snd h)) = X \<and> map_of (snd (snd (snd h))) ''id'' \<noteq> None)"

definition plan :: "node \<Rightarrow> (string list \<times> string) list" where
  "plan svg =
     concat (map (\<lambda>(element, properties).
                    map (\<lambda>e. (properties, element_id (nid e) svg))
                        (querySelectorAll_defs element svg))
                 iriElementsAndProperties)"

definition scoped_ids :: "node \<Rightarrow> string list" where
  "scoped_ids svg = map snd (plan svg)"

definition attribute_of :: "node \<Rightarrow> nat \<Rightarrow> string \<Rightarrow> string option" where
  "attribute_of svg x p = (case find_element x [svg] of None \<Rightarrow> None | Some e \<Rightarrow> getAttribute e p)"

definition pattr :: "nat \<Rightarrow> string \<Rightarrow> (nat \<times> attrs) list \<Rightarrow> string option" where
  "pattr x p ps = (case find (\<lambda>q. fst q = x) ps of None \<Rightarrow> None | Some q \<Rightarrow> map_of (snd q) p)"

definition mentions :: "string \<Rightarrow> string \<Rightarrow> bool" where
  "mentions v i = (i \<noteq> [] \<and> contains_str v i)"

definition one_reference :: node where
  "one_reference =
     Element 0 svg_ns ''svg'' [(''xmlns'', svg_ns)]
       [Element 1 svg_ns ''defs'' [] [Element 2 svg_ns ''clipPath'' [(''id'', ''c1'')] []],
        Element 3 svg_ns ''rect'' [(''clip-path'', ''url(#c1)'')] []]"

text \<open>What an injection with counter value \<open>count\<close> makes of \<open>one_reference\<close>.\<close>

definition one_reference_result :: "string \<Rightarrow> node" where
  "one_reference_result count =
     Element 0 svg_ns ''svg''
       [(''xmlns'', svg_ns), (''width'', ''100%''), (''height'', ''100%''), (''preserveAspectRatio'', ''none'')]
       [Element 1 svg_ns ''defs'' [] [Element 2 svg_ns ''clipPath'' [(''id'', ''c1-'' @ count)] []],
        Element 3 svg_ns ''rect'' [(''clip-path'', ''url(#c1-'' @ count @ '')'')] []]"

definition overlapping_ids :: node where
  "overlapping_ids =
     Element 0 svg_ns ''svg'' [(''xmlns'', svg_ns)]
       [Element 1 svg_ns ''defs'' []
          [Element 2 svg_ns ''clipPath'' [(''id'', ''a'')] [],
           Element 3 svg_ns ''clipPath'' [(''id'', ''ab'')] []],
        Element 4 svg_ns ''rect'' [(''clip-path'', ''url(#ab)'')] []]"

definition root_reference :: node where
  "root_reference =
     Element 0 svg_ns ''svg'' [(''xmlns'', svg_ns), (''clip-path'', ''url(#c)'')]
       [Element 1 svg_ns ''defs'' [] [Element 2 svg_ns ''clipPath'' [(''id'', ''c'')] []],
        Element 3 svg_ns ''rect'' [(''clip-path'', ''url(#c)'')] []]"

definition style_definition :: node where
  "style_definition =
     Element 0 svg_ns ''svg'' [(''xmlns'', svg_ns)]
       [Element 1 svg_ns ''style'' []
          [Element 2 svg_ns ''defs'' [] [Element 3 svg_ns ''clipPath'' [(''id'', ''c'')] []]],
        Element 4 svg_ns ''rect'' [(''clip-path'', ''url(#c)'')] []]"

text \<open>\<open>pruning r p\<close>: the tree \<open>r\<close> is what remains of \<open>p\<close> when subtrees below the
  root are taken away. \<open>nothing_pruned svg\<close>: the tree has no \<^verbatim>\<open>script\<close> element, and its
  \<^verbatim>\<open>style\<close> elements hold no elements.\<close>

definition pruning :: "node \<Rightarrow> node \<Rightarrow> bool" where
  "pruning r p = (is_element p \<and> is_element r \<and> nid r = nid p
                  \<and> subseq (desc_info r) (desc_info p))"

definition nothing_pruned :: "node \<Rightarrow> bool" where
  "nothing_pruned svg =
     list_all (\<lambda>e. tag e \<noteq> ''script'' \<and> (tag e = ''style'' \<longrightarrow> descendants e = []))
              (descendants svg)"


text \<open>Two trees that differ at most in the attributes of the root.\<close>

definition same_below :: "node \<Rightarrow> node \<Rightarrow> bool" where
  "same_below t t1 = (\<exists>i ns tg a a' cs. t = Element i ns tg a cs \<and> t1 = Element i ns tg a' cs)"

section \<open>What a callback of \<^verbatim>\<open>loadSvg\<close> can change\<close>

lemma eval_scripts_ok:
  "\<forall>s\<in>set ss. \<not> script_throws env s \<Longrightarrow>
   eval_scripts env ss st = (None, st\<lparr>executed := executed st @ ss\<rparr>)"
  by (induction ss arbitrary: st) (simp_all add: Let_def)

lemma eval_scripts_throw:
  "\<forall>x\<in>set before. \<not> script_throws env x \<Longrightarrow> script_throws env s \<Longrightarrow>
   eval_scripts env (before @ s # after) st
     = (Some (ScriptError s), st\<lparr>executed := executed st @ before @ [s]\<rparr>)"
  by (induction before arbitrary: st) (simp_all add: Let_def)

lemma eval_scripts_frame:
  "\<exists>x. snd (eval_scripts env ss st) = st\<lparr>executed := x\<rparr>"
proof (induction ss arbitrary: st)
  case Nil
  have "st = st\<lparr>executed := executed st\<rparr>" by simp
  then show ?case by (metis eval_scripts.simps(1) snd_conv)
next
  case (Cons s ss)
  show ?case
  proof (cases "script_throws env s")
    case True
    then show ?thesis by (auto simp: Let_def)
  next
    case False
    from Cons [of "st\<lparr>executed := executed st @ [s]\<rparr>"] obtain x
      where "snd (eval_scripts env ss (st\<lparr>executed := executed st @ [s]\<rparr>)) = st\<lparr>executed := executed st @ [s]\<rparr>\<lparr>executed := x\<rparr>"
      by blast
    with False show ?thesis by (auto simp: Let_def)
  qed
qed

lemma run_scripts_frame:
  "\<exists>x r. snd (run_scripts env p u ss st) = st\<lparr>executed := x, ranScripts := r\<rparr>"
proof -
  obtain x where x: "snd (eval_scripts env ss st) = st\<lparr>executed := x\<rparr>"
    using eval_scripts_frame by blast
  have id: "st = st\<lparr>executed := executed st, ranScripts := ranScripts st\<rparr>" by simp
  show ?thesis
  proof (cases "ss \<noteq> [] \<and> (p = ''always'' \<or> (p = ''once'' \<and> u \<notin> ranScripts st))")
    case False
    then have "snd (run_scripts env p u ss st) = st" by (auto simp: run_scripts_def)
    with id show ?thesis by metis
  next
    case True
    obtain e s' where es: "eval_scripts env ss st = (e, s')" by (cases "eval_scripts env ss st")
    with x have s': "s' = st\<lparr>executed := x\<rparr>" by simp
    show ?thesis
    proof (cases e)
      case None
      with True es s' have "snd (run_scripts env p u ss st) = st\<lparr>executed := x, ranScripts := insert u (ranScripts st)\<rparr>"
        by (simp add: run_scripts_def)
      then show ?thesis by blast
    next
      case (Some a)
      with True es s' have "snd (run_scripts env p u ss st) = st\<lparr>executed := x, ranScripts := ranScripts st\<rparr>"
        by (simp add: run_scripts_def)
      then show ?thesis by blast
    qed
  qed
qed


lemma call_frame: "\<exists>c. call cb args st = st\<lparr>called := c\<rparr>"
proof (cases cb)
  case None
  have "st = st\<lparr>called := called st\<rparr>" by simp
  with None show ?thesis unfolding call_def by (metis option.simps(4))
next
  case (Some a)
  then show ?thesis unfolding call_def by auto
qed

lemma inject_frame:
  "\<exists>ex rs doc ie ic cl. snd (inject env k arg st)
     = st\<lparr>executed := ex, ranScripts := rs, document := doc, injectedElements := ie,
          injectCount := ic, called := cl\<rparr>"
proof -
  have id: "st = st\<lparr>executed := executed st, ranScripts := ranScripts st, document := document st,
      injectedElements := injectedElements st, injectCount := injectCount st, called := called st\<rparr>"
    by simp
  show ?thesis
  proof (cases arg)
    case NoArg
    obtain c where "call (callback k) [Undefined] st = st\<lparr>called := c\<rparr>" using call_frame by blast
    then have "snd (inject env k arg st) = st\<lparr>executed := executed st, ranScripts := ranScripts st, document := document st,
      injectedElements := injectedElements st, injectCount := injectCount st, called := c\<rparr>"
      using NoArg by (simp add: inject_def)
    then show ?thesis by blast
  next
    case (Message m)
    obtain c where "call (callback k) [Str m] st = st\<lparr>called := c\<rparr>" using call_frame by blast
    then have "snd (inject env k arg st) = st\<lparr>executed := executed st, ranScripts := ranScripts st, document := document st,
      injectedElements := injectedElements st, injectCount := injectCount st, called := c\<rparr>"
      using Message by (simp add: inject_def)
    then show ?thesis by blast
  next
    case (Svg svg)
    show ?thesis
    proof (cases "prepared env (injectCount st) svg")
      case (Inl e)
      with Svg have "snd (inject env k arg st) = st" by (simp add: inject_def)
      with id show ?thesis by metis
    next
      case (Inr p)
      obtain svg4 ss where p: "p = (svg4, ss)" by (cases p)
      obtain x r where st1: "snd (run_scripts env (evalScripts k) (imgUrl k) ss st) = st\<lparr>executed := x, ranScripts := r\<rparr>"
        using run_scripts_frame by blast
      obtain e s1 where rs: "run_scripts env (evalScripts k) (imgUrl k) ss st = (e, s1)"
        by (cases "run_scripts env (evalScripts k) (imgUrl k) ss st")
      with st1 have s1: "s1 = st\<lparr>executed := x, ranScripts := r\<rparr>" by simp
      show ?thesis
      proof (cases e)
        case (Some a)
        with Svg Inr p rs s1 have "snd (inject env k arg st) = st\<lparr>executed := x, ranScripts := r, document := document st,
      injectedElements := injectedElements st, injectCount := injectCount st, called := called st\<rparr>"
          by (simp add: inject_def)
        then show ?thesis by blast
      next
        case None
        show ?thesis
        proof (cases "replaceChild (refresh_styles svg4) (el k) (document s1)")
          case (Inl a)
          with None Svg Inr p rs s1 have "snd (inject env k arg st) = st\<lparr>executed := x, ranScripts := r, document := document st,
      injectedElements := injectedElements st, injectCount := injectCount st, called := called st\<rparr>"
            by (simp add: inject_def)
          then show ?thesis by blast
        next
          case (Inr forest)
          obtain c where "call (callback k) [Null, node_ref (refresh_styles svg4)] (s1\<lparr>document := forest,
                                 injectedElements := delete_first (el k) (injectedElements s1),
                                 injectCount := js_incr (injectCount s1)\<rparr>) = (s1\<lparr>document := forest,
                                 injectedElements := delete_first (el k) (injectedElements s1),
                                 injectCount := js_incr (injectCount s1)\<rparr>)\<lparr>called := c\<rparr>"
            using call_frame by blast
          with None Svg \<open>prepared env (injectCount st) svg = Inr p\<close> p rs s1 Inr
          have "snd (inject env k arg st) = st\<lparr>executed := x, ranScripts := r, document := forest,
      injectedElements := delete_first (el k) (injectedElements st), injectCount := js_incr (injectCount st), called := c\<rparr>"
            by (simp add: inject_def)
          then show ?thesis by blast
        qed
      qed
    qed
  qed
qed

lemma inject_keeps:
  "svgCache (snd (inject env k arg st)) = svgCache st"
  "requestQueue (snd (inject env k arg st)) = requestQueue st"
  "fresh (snd (inject env k arg st)) = fresh st"
  "timers (snd (inject env k arg st)) = timers st"
  "requests (snd (inject env k arg st)) = requests st"
  "delivered (snd (inject env k arg st)) = delivered st"
  "uncaught (snd (inject env k arg st)) = uncaught st"
proof -
  obtain ex rs doc ie ic cl where "snd (inject env k arg st)
     = st\<lparr>executed := ex, ranScripts := rs, document := doc, injectedElements := ie,
          injectCount := ic, called := cl\<rparr>" using inject_frame by blast
  then show "svgCache (snd (inject env k arg st)) = svgCache st"
  "requestQueue (snd (inject env k arg st)) = requestQueue st"
  "fresh (snd (inject env k arg st)) = fresh st"
  "timers (snd (inject env k arg st)) = timers st"
  "requests (snd (inject env k arg st)) = requests st"
  "delivered (snd (inject env k arg st)) = delivered st"
  "uncaught (snd (inject env k arg st)) = uncaught st"
    by simp_all
qed


section \<open>What no step undoes\<close>

lemma grows_refl: "grows st st"
  by (simp add: grows_def)

lemma grows_trans: "grows a b \<Longrightarrow> grows b c \<Longrightarrow> grows a c"
  by (auto simp: grows_def)

lemma js_incr_ge: "n \<le> js_incr n"
  by (simp add: js_incr_def)

lemma grows_same:
  assumes "injectCount st' = injectCount st" and "ranScripts st' = ranScripts st"
      and "svgCache st' = svgCache st" and "requestQueue st' = requestQueue st"
      and "map xhr_url (requests st') = map xhr_url (requests st)"
  shows "grows st st'"
  using assms by (simp add: grows_def queue_implies_cache_def one_fetch_def)

lemma done_same_urls:
  "i < length xs \<Longrightarrow> map xhr_url (xs[i := (xs ! i)\<lparr>xhr_done := True\<rparr>]) = map xhr_url xs"
  by (simp add: map_update list_update_same_conv)

lemma grows_call: "grows st (call cb args st)"
  by (cases cb) (simp_all add: call_def grows_same)

lemma run_scripts_grows: "grows st (snd (run_scripts env policy url ss st))"
proof -
  obtain x where x: "snd (eval_scripts env ss st) = st\<lparr>executed := x\<rparr>"
    using eval_scripts_frame by blast
  obtain e s' where es: "eval_scripts env ss st = (e, s')" by (cases "eval_scripts env ss st")
  with x have s': "s' = st\<lparr>executed := x\<rparr>" by simp
  show ?thesis
    using es s' by (cases e) (auto simp: run_scripts_def grows_def queue_implies_cache_def one_fetch_def)
qed

lemma inject_grows: "grows st (snd (inject env k arg st))"
proof (cases arg)
  case NoArg
  then show ?thesis by (simp add: inject_def grows_call)
next
  case (Message m)
  then show ?thesis by (simp add: inject_def grows_call)
next
  case (Svg svg)
  show ?thesis
  proof (cases "prepared env (injectCount st) svg")
    case (Inl e)
    with Svg show ?thesis by (simp add: inject_def grows_refl)
  next
    case (Inr p)
    obtain svg4 ss where p: "p = (svg4, ss)" by (cases p)
    obtain e s1 where rs: "run_scripts env (evalScripts k) (imgUrl k) ss st = (e, s1)"
      by (cases "run_scripts env (evalScripts k) (imgUrl k) ss st")
    have g1: "grows st s1" using run_scripts_grows [of st env "evalScripts k" "imgUrl k" ss] rs by simp
    show ?thesis
    proof (cases e)
      case (Some a)
      with Svg Inr p rs g1 show ?thesis by (simp add: inject_def)
    next
      case None
      show ?thesis
      proof (cases "replaceChild (refresh_styles svg4) (el k) (document s1)")
        case (Inl a)
        with None Svg Inr p rs g1 show ?thesis by (simp add: inject_def)
      next
        case (Inr forest)
        let ?s2 = "s1\<lparr>document := forest,
                      injectedElements := delete_first (el k) (injectedElements s1),
                      injectCount := js_incr (injectCount s1)\<rparr>"
        have "grows s1 ?s2" by (simp add: grows_def queue_implies_cache_def one_fetch_def js_incr_ge)
        moreover have "grows ?s2 (call (callback k) [Null, node_ref (refresh_styles svg4)] ?s2)"
          by (rule grows_call)
        ultimately have "grows st (call (callback k) [Null, node_ref (refresh_styles svg4)] ?s2)"
          using g1 grows_trans by blast
        with None Svg \<open>prepared env (injectCount st) svg = Inr p\<close> p rs Inr
        show ?thesis by (simp add: inject_def)
      qed
    qed
  qed
qed

lemma invoke_grows: "grows st (snd (invoke env k arg st))"
proof -
  let ?s = "st\<lparr>delivered := delivered st @ [(k, arg)]\<rparr>"
  have "grows st ?s" by (simp add: grows_same)
  moreover have "grows ?s (snd (inject env k arg ?s))" by (rule inject_grows)
  ultimately show ?thesis unfolding invoke_def by (rule grows_trans)
qed

lemma and_then_grows:
  assumes "grows st (snd r)" and "\<And>s. grows s (snd (f s))"
  shows "grows st (snd (and_then r f))"
proof (cases r)
  case (Pair e s)
  show ?thesis
  proof (cases e)
    case None
    with Pair assms(1) assms(2) [of s] show ?thesis by (auto simp: and_then_def intro: grows_trans)
  next
    case (Some a)
    with Pair assms(1) show ?thesis by (simp add: and_then_def)
  qed
qed

lemma queueRequest_grows:
  "svgCache st url \<noteq> None \<Longrightarrow> grows st (queueRequest url k st)"
  by (simp add: queueRequest_def grows_def queue_implies_cache_def one_fetch_def)

lemma loadSvg_grows: "grows st (snd (loadSvg env url k st))"
proof (cases "svgCache st url")
  case None
  show ?thesis
  proof (cases "hasXMLHttpRequest env")
    case True
    with None show ?thesis
      by (auto simp: loadSvg_def queueRequest_def grows_def queue_implies_cache_def one_fetch_def)
  next
    case False
    with None show ?thesis by (simp add: loadSvg_def invoke_grows)
  qed
next
  case (Some entry)
  show ?thesis
  proof (cases "case entry of Loaded n \<Rightarrow> is_SVGSVGElement n | Loading \<Rightarrow> False")
    case True
    then obtain n where n: "entry = Loaded n" by (cases entry) auto
    obtain c f where cf: "cloneNode (fresh st) n = (c, f)" by (cases "cloneNode (fresh st) n")
    have "grows st (st\<lparr>fresh := f\<rparr>)" by (simp add: grows_same)
    moreover have "grows (st\<lparr>fresh := f\<rparr>) (snd (invoke env k (Svg c) (st\<lparr>fresh := f\<rparr>)))"
      by (rule invoke_grows)
    ultimately have "grows st (snd (invoke env k (Svg c) (st\<lparr>fresh := f\<rparr>)))" by (rule grows_trans)
    with Some True n cf show ?thesis by (simp add: loadSvg_def cloneSvg_def)
  next
    case False
    with Some show ?thesis by (simp add: loadSvg_def queueRequest_grows)
  qed
qed

lemma processRequestQueue_grows: "grows st (snd (processRequestQueue url st))"
  by (cases "requestQueue st url") (simp_all add: processRequestQueue_def grows_same)

lemma cache_root_grows: "grows st (cache_root url root st)"
  by (cases "cloneNode (fresh st) root")
     (auto simp: cache_root_def grows_def queue_implies_cache_def one_fetch_def
           intro: order_trans)

lemma onreadystatechange_grows: "grows st (snd (onreadystatechange env url k r st))"
proof -
  have pq: "\<And>root. grows st (snd (processRequestQueue url (cache_root url root st)))"
    using cache_root_grows processRequestQueue_grows grows_trans by blast
  have fail: "grows st (snd (and_then (invoke env k (Message (''Unable to load SVG file: '' @ url)) st) (\<lambda>st.
           and_then (if isLocal env
                     then invoke env k (Message ''Note: SVG injection ajax calls do not work locally without adjusting security setting in your browser. Or consider using a local webserver.'') st
                     else (None, st)) (\<lambda>st.
           invoke env k NoArg st))))"
    by (intro and_then_grows invoke_grows) (simp_all add: invoke_grows grows_refl)
  show ?thesis
    unfolding onreadystatechange_def
    using pq fail
    by (auto simp: invoke_grows processRequestQueue_grows split: responseXML.splits parsed.splits)
qed

lemma task_grows: "grows st (snd r) \<Longrightarrow> grows st (task r)"
proof (cases r)
  case (Pair e s)
  assume "grows st (snd r)"
  moreover have "\<And>x. grows s (s\<lparr>uncaught := x\<rparr>)" by (simp add: grows_same)
  ultimately show ?thesis using Pair by (cases e) (auto simp: task_def intro: grows_trans)
qed

lemma complete_grows: "grows st (complete env i r st)"
proof (cases "i < length (requests st) \<and> \<not> xhr_done (requests st ! i)")
  case True
  let ?s = "st\<lparr>requests := (requests st)[i := (requests st ! i)\<lparr>xhr_done := True\<rparr>]\<rparr>"
  have "grows st ?s" using True by (simp add: grows_same done_same_urls)
  moreover have "grows ?s (snd (onreadystatechange env (xhr_url (requests st ! i))
                                  (xhr_callback (requests st ! i)) r ?s))"
    by (rule onreadystatechange_grows)
  ultimately have "grows st (snd (onreadystatechange env (xhr_url (requests st ! i))
                                  (xhr_callback (requests st ! i)) r ?s))" by (rule grows_trans)
  then show ?thesis using True by (simp add: complete_def task_grows)
next
  case False
  then show ?thesis by (auto simp: complete_def grows_refl)
qed

lemma timer_body_grows: "grows st (snd (timer_body env url index st))"
proof (cases "requestQueue st url")
  case None
  then show ?thesis by (simp add: timer_body_def grows_refl)
next
  case (Some q)
  show ?thesis
  proof (cases "cloneSvg (svgCache st url) st")
    case (Inl e)
    with Some show ?thesis by (simp add: timer_body_def grows_refl)
  next
    case (Inr p)
    obtain c s' where p: "p = (c, s')" by (cases p)
    have "\<exists>f. s' = st\<lparr>fresh := f\<rparr>"
      using Inr p by (auto simp: cloneSvg_def split: option.splits cache_entry.splits prod.splits)
    then have g: "grows st s'" by (auto simp: grows_same)
    have "grows s' (snd (invoke env (q ! index) (Svg c) s'))" by (rule invoke_grows)
    with g have "grows st (snd (invoke env (q ! index) (Svg c) s'))" by (rule grows_trans)
    with Some Inr p g show ?thesis by (simp add: timer_body_def)
  qed
qed

lemma run_timer_grows: "grows st (run_timer env st)"
proof (cases "timers st")
  case Nil
  then show ?thesis by (simp add: run_timer_def grows_refl)
next
  case (Cons t rest)
  obtain url index where t: "t = (url, index)" by (cases t)
  have "grows st (st\<lparr>timers := rest\<rparr>)" by (simp add: grows_same)
  moreover have "grows (st\<lparr>timers := rest\<rparr>) (snd (timer_body env url index (st\<lparr>timers := rest\<rparr>)))"
    by (rule timer_body_grows)
  ultimately have "grows st (snd (timer_body env url index (st\<lparr>timers := rest\<rparr>)))"
    by (rule grows_trans)
  then show ?thesis using Cons t by (simp add: run_timer_def task_grows)
qed

lemma SVGInjector_grows: "grows st (snd (SVGInjector env e policy cb st))"
proof (cases "find_element e (document st)")
  case None
  then show ?thesis by (simp add: SVGInjector_def grows_refl)
next
  case (Some placeholder)
  have upd: "\<And>d. grows st (call cb [Null, NodeRef e] (st\<lparr>document := d\<rparr>))"
  proof -
    fix d
    have "grows st (st\<lparr>document := d\<rparr>)" by (simp add: grows_same)
    then show "grows st (call cb [Null, NodeRef e] (st\<lparr>document := d\<rparr>))"
      using grows_call grows_trans by blast
  qed
  have load: "\<And>url k ie d. grows st (snd (loadSvg env url k (st\<lparr>injectedElements := ie, document := d\<rparr>)))"
  proof -
    fix url k ie d
    have "grows st (st\<lparr>injectedElements := ie, document := d\<rparr>)" by (simp add: grows_same)
    then show "grows st (snd (loadSvg env url k (st\<lparr>injectedElements := ie, document := d\<rparr>)))"
      using loadSvg_grows grows_trans by blast
  qed
  show ?thesis
    using Some upd load
    by (auto simp: SVGInjector_def Let_def grows_call grows_refl split: option.splits)
qed

lemma later_grows: "later env st st' \<Longrightarrow> grows st st'"
proof (induction rule: later.induct)
  case (later_now st)
  show ?case by (rule grows_refl)
next
  case (later_call st st1 e policy cb)
  then show ?case using SVGInjector_grows grows_trans by blast
next
  case (later_response st st1 i r)
  then show ?case using complete_grows grows_trans by blast
next
  case (later_timer st st1)
  then show ?case using run_timer_grows grows_trans by blast
next
  case (later_page st st1 d)
  have "grows st1 (st1\<lparr>document := d\<rparr>)" by (simp add: grows_same)
  with later_page show ?case using grows_trans by blast
next
  case (later_noted st st1 u)
  have "grows st1 (st1\<lparr>uncaught := u\<rparr>)" by (simp add: grows_same)
  with later_noted show ?case using grows_trans by blast
qed



lemma inject_success_counts:
  assumes "fst (inject env k (Svg svg) st) = None"
  shows "injectCount (snd (inject env k (Svg svg) st)) = js_incr (injectCount st)"
proof (cases "prepared env (injectCount st) svg")
  case (Inl e)
  with assms show ?thesis by (simp add: inject_def)
next
  case (Inr p)
  obtain svg4 ss where p: "p = (svg4, ss)" by (cases p)
  obtain x r where st1: "snd (run_scripts env (evalScripts k) (imgUrl k) ss st) = st\<lparr>executed := x, ranScripts := r\<rparr>"
    using run_scripts_frame by blast
  obtain e s1 where rs: "run_scripts env (evalScripts k) (imgUrl k) ss st = (e, s1)"
    by (cases "run_scripts env (evalScripts k) (imgUrl k) ss st")
  with st1 have s1: "s1 = st\<lparr>executed := x, ranScripts := r\<rparr>" by simp
  show ?thesis
  proof (cases e)
    case (Some a)
    with Inr p rs assms show ?thesis by (simp add: inject_def)
  next
    case None
    show ?thesis
    proof (cases "replaceChild (refresh_styles svg4) (el k) (document s1)")
      case (Inl a)
      with None \<open>prepared env (injectCount st) svg = Inr p\<close> p rs assms
      show ?thesis by (simp add: inject_def)
    next
      case (Inr forest)
      have "injectCount (call (callback k) [Null, node_ref (refresh_styles svg4)]
              (s1\<lparr>document := forest,
                  injectedElements := delete_first (el k) (injectedElements s1),
                  injectCount := js_incr (injectCount s1)\<rparr>)) = js_incr (injectCount s1)"
        by (cases "callback k") (simp_all add: call_def)
      with None \<open>prepared env (injectCount st) svg = Inr p\<close> p rs s1 Inr
      show ?thesis by (simp add: inject_def)
    qed
  qed
qed

lemma later_counter_differs:
  assumes "fst (inject env k (Svg svg) st) = None"
      and "later env (snd (inject env k (Svg svg) st)) st'"
      and "int (injectCount st) < 9007199254740992"
  shows "injectCount st \<noteq> injectCount st'"
proof -
  have "injectCount (snd (inject env k (Svg svg) st)) = Suc (injectCount st)"
    using inject_success_counts [OF assms(1)] assms(3) by (simp add: js_incr_def)
  moreover have "injectCount (snd (inject env k (Svg svg) st)) \<le> injectCount st'"
    using later_grows [OF assms(2)] by (simp add: grows_def)
  ultimately show ?thesis by simp
qed

section \<open>The locator test (C7)\<close>

text \<open>
  C7, as the code has it. A placeholder whose locator does not contain \<^verbatim>\<open>.svg\<close>
  (in either case, anywhere in the string) makes \<open>SVGInjector\<close> call the callback once
  with the message "Attempted to inject a file with a non-svg extension: " followed by
  the locator, and return; apart from the record of that call the state, the document
  included, is what it was.
\<close>

theorem non_svg_locator_is_refused:
  assumes "find_element e (document st) = Some placeholder"
      and "\<not> svg_regex_test (js_str (getAttribute placeholder ''data-src''))"
  shows "SVGInjector env e policy cb st =
           (None, call cb [Str (''Attempted to inject a file with a non-svg extension: ''
                                 @ js_str (getAttribute placeholder ''data-src''))] st)
         \<and> (call cb [Str (''Attempted to inject a file with a non-svg extension: ''
                                 @ js_str (getAttribute placeholder ''data-src''))] st)
              \<lparr>called := called st\<rparr> = st"
proof -
  obtain c where "call cb [Str (''Attempted to inject a file with a non-svg extension: ''
                                 @ js_str (getAttribute placeholder ''data-src''))] st = st\<lparr>called := c\<rparr>"
    using call_frame by blast
  then have "(call cb [Str (''Attempted to inject a file with a non-svg extension: ''
                                 @ js_str (getAttribute placeholder ''data-src''))] st)
              \<lparr>called := called st\<rparr> = st" by simp
  moreover have "SVGInjector env e policy cb st =
           (None, call cb [Str (''Attempted to inject a file with a non-svg extension: ''
                                 @ js_str (getAttribute placeholder ''data-src''))] st)"
    using assms by (simp add: SVGInjector_def Let_def)
  ultimately show ?thesis by simp
qed

theorem non_svg_locator_is_refused_witness:
  "find_element 2 (document (init png_placeholders 3))
     = Some (Element 2 html_ns ''img'' [(''data-src'', ''icon.png'')] [])
   \<and> \<not> svg_regex_test (js_str (getAttribute (Element 2 html_ns ''img'' [(''data-src'', ''icon.png'')] []) ''data-src''))
   \<and> SVGInjector env0 2 None (Some 7) (init png_placeholders 3)
       = (None, call (Some 7) [Str ''Attempted to inject a file with a non-svg extension: icon.png'']
                  (init png_placeholders 3))"
proof -
  have a: "find_element 2 (document (init png_placeholders 3))
     = Some (Element 2 html_ns ''img'' [(''data-src'', ''icon.png'')] [])" by code_simp
  have b: "\<not> svg_regex_test (js_str (getAttribute (Element 2 html_ns ''img'' [(''data-src'', ''icon.png'')] []) ''data-src''))"
    by code_simp
  have c: "js_str (getAttribute (Element 2 html_ns ''img'' [(''data-src'', ''icon.png'')] []) ''data-src'') = ''icon.png''"
    by code_simp
  from non_svg_locator_is_refused [OF a b, of env0 None "Some 7"] a b c show ?thesis by simp
qed

text \<open>
  C7 as stated speaks of a locator that does not end in \<^verbatim>\<open>.svg\<close>. The locator
  \<^verbatim>\<open>icon.svg.png\<close> does not end in it, yet passes the test: no failure is reported,
  the placeholder's \<^verbatim>\<open>src\<close> is cleared and a request for the file is sent.
\<close>

theorem extension_test_is_not_a_suffix_test:
  "\<not> has_svg_extension ''icon.svg.png''
   \<and> find_element 1 (document (init png_placeholders 3))
       = Some (Element 1 html_ns ''img'' [(''data-src'', ''icon.svg.png'')] [])
   \<and> called (snd (SVGInjector env0 1 None (Some 7) (init png_placeholders 3))) = []
   \<and> document (snd (SVGInjector env0 1 None (Some 7) (init png_placeholders 3)))
       = [Element 0 html_ns ''body'' []
           [Element 1 html_ns ''img'' [(''data-src'', ''icon.svg.png''), (''src'', [])] [],
            Element 2 html_ns ''img'' [(''data-src'', ''icon.png'')] []]]
   \<and> map xhr_url (requests (snd (SVGInjector env0 1 None (Some 7) (init png_placeholders 3))))
       = [''icon.svg.png'']"
  by code_simp

section \<open>A placeholder without a parent (C9)\<close>

text \<open>
  C9, as the code has it. When the placeholder has no parent at the time the callback of
  \<^verbatim>\<open>loadSvg\<close> runs with a tree, the callback does not complete: it throws (at the
  latest the \<^verbatim>\<open>TypeError\<close> of \<^verbatim>\<open>el.parentNode.replaceChild\<close>), the document is not
  changed, the placeholder stays in \<^verbatim>\<open>injectedElements\<close>, \<^verbatim>\<open>injectCount\<close> is not
  incremented and the caller's callback is not called.
\<close>

theorem detached_placeholder_throws:
  assumes "\<not> has_parent (el k) (document st)"
  shows "fst (inject env k (Svg svg) st) \<noteq> None
       \<and> document (snd (inject env k (Svg svg) st)) = document st
       \<and> injectedElements (snd (inject env k (Svg svg) st)) = injectedElements st
       \<and> injectCount (snd (inject env k (Svg svg) st)) = injectCount st
       \<and> called (snd (inject env k (Svg svg) st)) = called st"
proof (cases "prepared env (injectCount st) svg")
  case (Inl e)
  then show ?thesis by (simp add: inject_def)
next
  case (Inr p)
  obtain svg4 ss where p: "p = (svg4, ss)" by (cases p)
  obtain x r where st1: "snd (run_scripts env (evalScripts k) (imgUrl k) ss st) = st\<lparr>executed := x, ranScripts := r\<rparr>"
    using run_scripts_frame by blast
  obtain e s1 where rs: "run_scripts env (evalScripts k) (imgUrl k) ss st = (e, s1)"
    by (cases "run_scripts env (evalScripts k) (imgUrl k) ss st")
  with st1 have s1: "s1 = st\<lparr>executed := x, ranScripts := r\<rparr>" by simp
  show ?thesis
  proof (cases e)
    case (Some a)
    with Inr p rs s1 show ?thesis by (simp add: inject_def)
  next
    case None
    from assms s1 have "replaceChild (refresh_styles svg4) (el k) (document s1) = Inl TypeError"
      by (simp add: replaceChild_def)
    with None Inr p rs s1 show ?thesis by (simp add: inject_def)
  qed
qed


theorem detached_placeholder_throws_witness:
  "\<not> has_parent (el first_consumer) (document removed_mid_flight)
   \<and> fst (inject env0 first_consumer (Svg plain_svg) removed_mid_flight) \<noteq> None
   \<and> called (snd (inject env0 first_consumer (Svg plain_svg) removed_mid_flight)) = called removed_mid_flight"
proof -
  have h: "\<not> has_parent (el first_consumer) (document removed_mid_flight)" by code_simp
  from detached_placeholder_throws [OF h, of env0 plain_svg] h show ?thesis by simp
qed

text \<open>
  C9 as stated wants the replacement to be a no-op that does not throw. Here the first
  placeholder is taken out of the page while its file is loading; when the timer of its
  request fires, a \<^verbatim>\<open>TypeError\<close> escapes and the callback is never called.
\<close>

theorem removed_placeholder_crashes:
  "\<not> has_parent 1 (document removed_mid_flight)
   \<and> timers removed_mid_flight = [(''a.svg'', 0)]
   \<and> uncaught (run_timer env0 removed_mid_flight) = [TypeError]
   \<and> called (run_timer env0 removed_mid_flight) = []
   \<and> injectedElements (run_timer env0 removed_mid_flight) = [Some 1]"
  by code_simp

section \<open>A payload that throws (C5)\<close>

text \<open>
  C5, as the code has it. When the payloads are run and one of them throws, what it throws
  leaves the callback of \<^verbatim>\<open>loadSvg\<close>: the payloads after it are not run, and nothing
  else happens. The state differs from the one before only in the list of payloads run, so
  the file is not noted in \<^verbatim>\<open>ranScripts\<close>, the placeholder is not replaced and stays in
  \<^verbatim>\<open>injectedElements\<close>, \<^verbatim>\<open>injectCount\<close> is not incremented, and the caller's
  callback is not called.
\<close>

theorem throwing_payload_aborts:
  assumes "prepared env (injectCount st) svg = Inr (svg4, before @ s # after)"
      and "\<forall>x\<in>set before. \<not> script_throws env x"
      and "script_throws env s"
      and "evalScripts k = ''always'' \<or> (evalScripts k = ''once'' \<and> imgUrl k \<notin> ranScripts st)"
  shows "inject env k (Svg svg) st
           = (Some (ScriptError s), st\<lparr>executed := executed st @ before @ [s]\<rparr>)"
proof -
  have "eval_scripts env (before @ s # after) st
          = (Some (ScriptError s), st\<lparr>executed := executed st @ before @ [s]\<rparr>)"
    using assms(2,3) by (rule eval_scripts_throw)
  then have "run_scripts env (evalScripts k) (imgUrl k) (before @ s # after) st
          = (Some (ScriptError s), st\<lparr>executed := executed st @ before @ [s]\<rparr>)"
    using assms(4) by (auto simp: run_scripts_def)
  with assms(1) show ?thesis by (simp add: inject_def)
qed

theorem throwing_payload_aborts_witness:
  "prepared env0 (injectCount scripts_arrived) (fst (cloneNode 9 svg_with_scripts))
     = Inr (Element 9 svg_ns ''svg''
              [(''xmlns'', svg_ns), (''width'', ''100%''), (''height'', ''100%''), (''preserveAspectRatio'', ''none'')]
              [Element 13 svg_ns ''rect'' [] []],
            [''a = 1''] @ ''throw 1'' # [''b = 2''])
   \<and> \<not> script_throws env0 ''a = 1''
   \<and> script_throws env0 ''throw 1''
   \<and> evalScripts first_consumer = ''always''
   \<and> inject env0 first_consumer (Svg (fst (cloneNode 9 svg_with_scripts))) scripts_arrived
       = (Some (ScriptError ''throw 1''),
          scripts_arrived\<lparr>executed := executed scripts_arrived @ [''a = 1''] @ [''throw 1'']\<rparr>)"
proof -
  have a: "prepared env0 (injectCount scripts_arrived) (fst (cloneNode 9 svg_with_scripts))
     = Inr (Element 9 svg_ns ''svg''
              [(''xmlns'', svg_ns), (''width'', ''100%''), (''height'', ''100%''), (''preserveAspectRatio'', ''none'')]
              [Element 13 svg_ns ''rect'' [] []],
            [''a = 1''] @ ''throw 1'' # [''b = 2''])" by code_simp
  have b: "\<forall>x\<in>set [''a = 1'']. \<not> script_throws env0 x" by code_simp
  have c: "script_throws env0 ''throw 1''" by code_simp
  have d: "evalScripts first_consumer = ''always''" by code_simp
  have d': "evalScripts first_consumer = ''always''
            \<or> (evalScripts first_consumer = ''once'' \<and> imgUrl first_consumer \<notin> ranScripts scripts_arrived)"
    using d by simp
  from throwing_payload_aborts [OF a b c d'] a b c d show ?thesis by simp
qed

text \<open>
  C5 as stated wants the failure caught, the remaining payloads run and the tree put in
  place. With three payloads of which the second throws, the third is not run, the
  exception escapes the timer task, the callback is not called and the placeholder is
  still in the page.
\<close>

theorem throwing_payload_stops_injection:
  "timers scripts_arrived = [(''a.svg'', 0)]
   \<and> executed (run_timer env0 scripts_arrived) = [''a = 1'', ''throw 1'']
   \<and> uncaught (run_timer env0 scripts_arrived) = [ScriptError ''throw 1'']
   \<and> called (run_timer env0 scripts_arrived) = []
   \<and> document (run_timer env0 scripts_arrived) = document scripts_arrived
   \<and> has_parent 1 (document (run_timer env0 scripts_arrived))"
  by code_simp

section \<open>A key that is already in the cache (C4)\<close>

lemma cloneNode_root:
  "is_SVGSVGElement n \<Longrightarrow> node_ref (fst (cloneNode f n)) = NodeRef f"
  by (cases n) (auto split: prod.splits)

lemma root_outside_svg_namespace_is_queued:
  assumes "svgCache st url = Some (Loaded n)" and "\<not> is_SVGSVGElement n"
  shows "loadSvg env url k st = (None, queueRequest url k st)"
  using assms by (simp add: loadSvg_def)

text \<open>
  C4, as the code has it. The test of line 50 is \<^verbatim>\<open>instanceof SVGSVGElement\<close>: a key is
  Ready when what the cache holds for it is an \<^verbatim>\<open>svg\<close> element in the SVG namespace. A
  request for such a key calls the continuation inside the call of \<^verbatim>\<open>loadSvg\<close> itself,
  with a fresh clone of the node in the cache: when the call returns the continuation has
  been invoked, no timer has been set, no request has been sent and nothing has been
  queued.
\<close>

theorem ready_key_is_served_within_the_call:
  assumes "svgCache st url = Some (Loaded n)" and "is_SVGSVGElement n"
  shows "cache_state st url = Ready
       \<and> delivered (snd (loadSvg env url k st))
           = delivered st @ [(k, Svg (fst (cloneNode (fresh st) n)))]
       \<and> node_ref (fst (cloneNode (fresh st) n)) = NodeRef (fresh st)
       \<and> timers (snd (loadSvg env url k st)) = timers st
       \<and> requests (snd (loadSvg env url k st)) = requests st
       \<and> requestQueue (snd (loadSvg env url k st)) = requestQueue st"
proof -
  obtain c f where cf: "cloneNode (fresh st) n = (c, f)" by (cases "cloneNode (fresh st) n")
  have c: "node_ref c = NodeRef (fresh st)" using cloneNode_root [OF assms(2), of "fresh st"] cf by simp
  have "loadSvg env url k st = invoke env k (Svg c) (st\<lparr>fresh := f\<rparr>)"
    using assms cf by (simp add: loadSvg_def cloneSvg_def)
  then have "loadSvg env url k st
      = inject env k (Svg c) (st\<lparr>fresh := f, delivered := delivered st @ [(k, Svg c)]\<rparr>)"
    by (simp add: invoke_def)
  moreover have "cache_state st url = Ready" using assms by (simp add: cache_state_def)
  ultimately show ?thesis using c cf by (simp add: inject_keeps)
qed

theorem ready_key_is_served_within_the_call_witness:
  "svgCache first_injected ''a.svg'' = Some (Loaded (Element 3 svg_ns ''svg'' [(''xmlns'', svg_ns)] [Element 4 svg_ns ''rect'' [] []]))
   \<and> is_SVGSVGElement (Element 3 svg_ns ''svg'' [(''xmlns'', svg_ns)] [Element 4 svg_ns ''rect'' [] []])
   \<and> cache_state first_injected ''a.svg'' = Ready
   \<and> delivered (snd (loadSvg env0 ''a.svg'' second_consumer first_injected))
       = delivered first_injected @ [(second_consumer, Svg (Element 7 svg_ns ''svg'' [(''xmlns'', svg_ns)] [Element 8 svg_ns ''rect'' [] []]))]
   \<and> timers (snd (loadSvg env0 ''a.svg'' second_consumer first_injected)) = timers first_injected"
proof -
  have a: "svgCache first_injected ''a.svg''
             = Some (Loaded (Element 3 svg_ns ''svg'' [(''xmlns'', svg_ns)] [Element 4 svg_ns ''rect'' [] []]))" by code_simp
  have b: "is_SVGSVGElement (Element 3 svg_ns ''svg'' [(''xmlns'', svg_ns)] [Element 4 svg_ns ''rect'' [] []])" by code_simp
  have c: "fst (cloneNode (fresh first_injected) (Element 3 svg_ns ''svg'' [(''xmlns'', svg_ns)] [Element 4 svg_ns ''rect'' [] []]))
             = Element 7 svg_ns ''svg'' [(''xmlns'', svg_ns)] [Element 8 svg_ns ''rect'' [] []]" by code_simp
  from ready_key_is_served_within_the_call [OF a b, of env0 second_consumer] a b c
  show ?thesis by simp
qed

text \<open>
  C4 as stated wants the continuation deferred. After a first injection of
  \<^verbatim>\<open>a.svg\<close> has completed, a second call of \<open>SVGInjector\<close> for the same file has
  invoked the continuation, replaced its placeholder and called the callback by the time
  it returns, and there is no timer pending.
\<close>

theorem cache_hit_is_not_deferred:
  "cache_state first_injected ''a.svg'' = Ready
   \<and> timers first_injected = []
   \<and> map fst (delivered first_injected) = [first_consumer]
   \<and> called first_injected = [(7, [Null, NodeRef 5])]
   \<and> timers (snd (SVGInjector env0 2 None (Some 8) first_injected)) = []
   \<and> map fst (delivered (snd (SVGInjector env0 2 None (Some 8) first_injected)))
       = [first_consumer, second_consumer]
   \<and> called (snd (SVGInjector env0 2 None (Some 8) first_injected))
       = [(7, [Null, NodeRef 5]), (8, [Null, NodeRef 7])]
   \<and> \<not> has_parent 2 (document (snd (SVGInjector env0 2 None (Some 8) first_injected)))"
  by code_simp

section \<open>A script below the first level (C8)\<close>

text \<open>
  C8 at a tree whose only script is a grandchild of the root: \<^verbatim>\<open>querySelectorAll\<close>
  finds it, \<^verbatim>\<open>svg.removeChild\<close> throws \<^verbatim>\<open>NotFoundError\<close> because it is not a child
  of the root, and the injection stops there: the payload is not run, the callback is not
  called and the placeholder stays in the page.
\<close>

theorem nested_script_is_not_removed:
  "timers nested_script_arrived = [(''a.svg'', 0)]
   \<and> take_scripts (Element 5 svg_ns ''svg'' [(''xmlns'', svg_ns)] [Element 6 svg_ns ''g'' [] [Element 7 svg_ns ''script'' [] [Text ''a = 1'']]])
       = Inl NotFoundError
   \<and> uncaught (run_timer env0 nested_script_arrived) = [NotFoundError]
   \<and> executed (run_timer env0 nested_script_arrived) = []
   \<and> called (run_timer env0 nested_script_arrived) = []
   \<and> document (run_timer env0 nested_script_arrived) = document nested_script_arrived
   \<and> has_parent 1 (document (run_timer env0 nested_script_arrived))"
  by code_simp

section \<open>A fetch that fails (C3, C6)\<close>

text \<open>
  C3 at two placeholders for the same file whose fetch ends in 404: both continuations
  are in the queue, one request was sent; the failure reaches the first continuation
  only (the message, then the call without argument). No timer is pending and the
  request is done, so the second continuation is never invoked.
\<close>

theorem coalesced_consumer_never_hears_of_failure:
  "requestQueue both_requested ''a.svg'' = Some [first_consumer, second_consumer]
   \<and> map xhr_url (requests both_requested) = [''a.svg'']
   \<and> delivered both_failed
       = [(first_consumer, Message ''Unable to load SVG file: a.svg''), (first_consumer, NoArg)]
   \<and> called both_failed = [(7, [Str ''Unable to load SVG file: a.svg'']), (7, [Undefined])]
   \<and> timers both_failed = []
   \<and> map xhr_done (requests both_failed) = [True]
   \<and> run_timer env0 both_failed = both_failed"
proof -
  have a: "requestQueue both_requested ''a.svg'' = Some [first_consumer, second_consumer]
   \<and> map xhr_url (requests both_requested) = [''a.svg'']
   \<and> delivered both_failed
       = [(first_consumer, Message ''Unable to load SVG file: a.svg''), (first_consumer, NoArg)]
   \<and> called both_failed = [(7, [Str ''Unable to load SVG file: a.svg'']), (7, [Undefined])]
   \<and> timers both_failed = []
   \<and> map xhr_done (requests both_failed) = [True]" by code_simp
  then have "timers both_failed = []" by simp
  then have "run_timer env0 both_failed = both_failed" by (simp add: run_timer_def)
  with a show ?thesis by simp
qed

text \<open>
  C6 at a placeholder whose fetch ends in 404: the callback has reported the failure, and
  the placeholder is still in \<^verbatim>\<open>injectedElements\<close>; a second call of \<open>SVGInjector\<close>
  for it returns at line 208 and changes nothing.
\<close>

theorem failed_placeholder_stays_tracked:
  "injectedElements one_requested = [Some 1]
   \<and> called one_failed = [(7, [Str ''Unable to load SVG file: a.svg'']), (7, [Undefined])]
   \<and> injectedElements one_failed = [Some 1]
   \<and> timers one_failed = []
   \<and> SVGInjector env0 1 None (Some 7) one_failed = (None, one_failed)"
proof -
  have a: "injectedElements one_requested = [Some 1]
   \<and> called one_failed = [(7, [Str ''Unable to load SVG file: a.svg'']), (7, [Undefined])]
   \<and> injectedElements one_failed = [Some 1]
   \<and> timers one_failed = []" by code_simp
  have b: "find_element 1 (document one_failed)
            = Some (Element 1 html_ns ''img'' [(''data-src'', ''a.svg''), (''src'', [])] [])" by code_simp
  have c: "svg_regex_test (js_str (getAttribute (Element 1 html_ns ''img'' [(''data-src'', ''a.svg''), (''src'', [])] []) ''data-src''))"
    by code_simp
  have d: "hasSvgSupport env0" by code_simp
  have "SVGInjector env0 1 None (Some 7) one_failed = (None, one_failed)"
    using a b c d by (simp add: SVGInjector_def Let_def)
  with a show ?thesis by simp
qed


section \<open>The two script policies (C10)\<close>

lemma run_scripts_once_recorded:
  "url \<in> ranScripts st \<Longrightarrow> run_scripts env ''once'' url ss st = (None, st)"
  by (simp add: run_scripts_def)

lemma run_scripts_always_ok:
  assumes "ss \<noteq> []" and "\<forall>s\<in>set ss. \<not> script_throws env s"
  shows "run_scripts env ''always'' url ss st
           = (None, st\<lparr>executed := executed st @ ss, ranScripts := insert url (ranScripts st)\<rparr>)"
  using assms eval_scripts_ok [OF assms(2), of st] by (simp add: run_scripts_def)

lemma executed_call [simp]: "executed (call cb args st) = executed st"
  by (cases cb) (simp_all add: call_def)

lemma ranScripts_call [simp]: "ranScripts (call cb args st) = ranScripts st"
  by (cases cb) (simp_all add: call_def)

lemma once_runs_nothing_when_recorded:
  assumes "imgUrl k \<in> ranScripts st" and "evalScripts k = ''once''"
  shows "executed (snd (inject env k arg st)) = executed st"
proof (cases arg)
  case (Svg svg)
  show ?thesis
  proof (cases "prepared env (injectCount st) svg")
    case (Inl e)
    with Svg show ?thesis by (simp add: inject_def)
  next
    case (Inr p)
    obtain svg4 ss where p: "p = (svg4, ss)" by (cases p)
    have "run_scripts env (evalScripts k) (imgUrl k) ss st = (None, st)"
      using assms by (simp add: run_scripts_once_recorded)
    with Svg Inr p show ?thesis by (simp add: inject_def split: sum.splits)
  qed
qed (simp_all add: inject_def)

lemma later_once_runs_nothing:
  assumes "imgUrl k \<in> ranScripts st" and "later env st st'"
      and "evalScripts k' = ''once''" and "imgUrl k' = imgUrl k"
  shows "executed (snd (inject env k' arg st')) = executed st'"
proof -
  have "imgUrl k' \<in> ranScripts st'"
    using later_grows [OF assms(2)] assms(1,4) by (auto simp: grows_def)
  then show ?thesis using assms(3) by (rule once_runs_nothing_when_recorded)
qed

lemma always_records:
  assumes "prepared env (injectCount st) svg = Inr (svg4, payloads)"
      and "payloads \<noteq> []"
      and "\<forall>s\<in>set payloads. \<not> script_throws env s"
      and "evalScripts k = ''always''"
  shows "executed (snd (inject env k (Svg svg) st)) = executed st @ payloads"
    and "imgUrl k \<in> ranScripts (snd (inject env k (Svg svg) st))"
proof -
  have "run_scripts env (evalScripts k) (imgUrl k) payloads st
          = (None, st\<lparr>executed := executed st @ payloads,
                       ranScripts := insert (imgUrl k) (ranScripts st)\<rparr>)"
    using assms(2,3,4) by (simp add: run_scripts_always_ok)
  with assms(1) show "executed (snd (inject env k (Svg svg) st)) = executed st @ payloads"
    and "imgUrl k \<in> ranScripts (snd (inject env k (Svg svg) st))"
    by (simp_all add: inject_def split: sum.splits)
qed

text \<open>
  C10, as the code has it. When an injection of a file under the policy \<^verbatim>\<open>always\<close>
  captures at least one payload and none of the payloads throws, all of them are run and
  the file is noted in \<^verbatim>\<open>ranScripts\<close> (whatever happens to the replacement afterwards);
  and in every later state an injection of the file under the policy \<^verbatim>\<open>once\<close> runs no
  payload.
\<close>

theorem completed_always_run_blocks_once:
  assumes "prepared env (injectCount st) svg = Inr (svg4, payloads)"
      and "payloads \<noteq> []"
      and "\<forall>s\<in>set payloads. \<not> script_throws env s"
      and "evalScripts k = ''always''"
  shows "executed (snd (inject env k (Svg svg) st)) = executed st @ payloads
       \<and> imgUrl k \<in> ranScripts (snd (inject env k (Svg svg) st))
       \<and> (\<forall>st' k' arg. later env (snd (inject env k (Svg svg) st)) st'
             \<longrightarrow> evalScripts k' = ''once'' \<longrightarrow> imgUrl k' = imgUrl k
             \<longrightarrow> executed (snd (inject env k' arg st')) = executed st')"
  using always_records [OF assms] later_once_runs_nothing by blast

theorem completed_always_run_blocks_once_witness:
  "prepared env0 (injectCount two_scripts_arrived) (fst (cloneNode 9 svg_two_scripts))
     = Inr (Element 9 svg_ns ''svg''
              [(''xmlns'', svg_ns), (''width'', ''100%''), (''height'', ''100%''), (''preserveAspectRatio'', ''none'')]
              [Element 11 svg_ns ''script'' [(''type'', ''text/plain'')] [Text ''throw 1''],
               Element 13 svg_ns ''rect'' [] []],
            [''a = 1'', ''b = 2''])
   \<and> \<not> script_throws env0 ''a = 1'' \<and> \<not> script_throws env0 ''b = 2''
   \<and> evalScripts first_consumer = ''always''
   \<and> executed (snd (inject env0 first_consumer (Svg (fst (cloneNode 9 svg_two_scripts)))
                       two_scripts_arrived))
       = executed two_scripts_arrived @ [''a = 1'', ''b = 2'']
   \<and> imgUrl first_consumer
       \<in> ranScripts (snd (inject env0 first_consumer (Svg (fst (cloneNode 9 svg_two_scripts)))
                               two_scripts_arrived))
   \<and> executed (snd (inject env0 once_consumer (Svg (fst (cloneNode 13 svg_two_scripts)))
                       (snd (inject env0 first_consumer (Svg (fst (cloneNode 9 svg_two_scripts)))
                               two_scripts_arrived))))
       = executed (snd (inject env0 first_consumer (Svg (fst (cloneNode 9 svg_two_scripts)))
                               two_scripts_arrived))"
proof -
  have a: "prepared env0 (injectCount two_scripts_arrived) (fst (cloneNode 9 svg_two_scripts))
     = Inr (Element 9 svg_ns ''svg''
              [(''xmlns'', svg_ns), (''width'', ''100%''), (''height'', ''100%''), (''preserveAspectRatio'', ''none'')]
              [Element 11 svg_ns ''script'' [(''type'', ''text/plain'')] [Text ''throw 1''],
               Element 13 svg_ns ''rect'' [] []],
            [''a = 1'', ''b = 2''])" by code_simp
  have b: "[''a = 1'', ''b = 2''] \<noteq> []" by simp
  have c1: "\<not> script_throws env0 ''a = 1''" and c2: "\<not> script_throws env0 ''b = 2''"
    by code_simp+
  have c: "\<forall>s\<in>set [''a = 1'', ''b = 2'']. \<not> script_throws env0 s" using c1 c2 by simp
  have d: "evalScripts first_consumer = ''always''" by code_simp
  have e: "evalScripts once_consumer = ''once''" and f: "imgUrl once_consumer = imgUrl first_consumer"
    by code_simp+
  have g: "later env0 (snd (inject env0 first_consumer (Svg (fst (cloneNode 9 svg_two_scripts)))
                               two_scripts_arrived))
                      (snd (inject env0 first_consumer (Svg (fst (cloneNode 9 svg_two_scripts)))
                               two_scripts_arrived))" by (rule later_now)
  from completed_always_run_blocks_once [OF a b c d] a c1 c2 d e f g show ?thesis by simp
qed

text \<open>
  C10 as stated asks only that the \<^verbatim>\<open>always\<close> injection runs at least one payload.
  Here it runs the first payload and the second one throws: the file is not noted, and a
  later injection under \<^verbatim>\<open>once\<close> runs the payloads again.
\<close>

theorem thrown_always_run_does_not_block_once:
  "evalScripts first_consumer = ''always''
   \<and> timers scripts_arrived = [(''a.svg'', 0)]
   \<and> map fst (delivered thrown_under_always) = [first_consumer]
   \<and> executed thrown_under_always = [''a = 1'', ''throw 1'']
   \<and> ''a.svg'' \<notin> ranScripts thrown_under_always
   \<and> cache_state thrown_under_always ''a.svg'' = Ready
   \<and> executed (snd (SVGInjector env0 2 (Some ''once'') (Some 8) thrown_under_always))
       = [''a = 1'', ''throw 1'', ''a = 1'', ''throw 1'']"
  by code_simp

section \<open>Requests for a key that is not loaded yet (C1)\<close>

lemma cloneNode_size:
  "snd (cloneNode f n) = f + length (elements n)"
  "snd (cloneNodes f cs) = f + length (concat (map elements cs))"
  by (induction f n and f cs rule: cloneNode_cloneNodes.induct) (auto split: prod.splits)

lemma cloneNode_Element:
  "is_element n \<Longrightarrow> node_ref (fst (cloneNode f n)) = NodeRef f"
  by (cases n) (auto split: prod.splits)

lemma is_element_cloneNode: "is_element n \<Longrightarrow> is_element (fst (cloneNode f n))"
  by (cases n) (auto split: prod.splits)

lemma elements_pos: "is_element n \<Longrightarrow> 0 < length (elements n)"
  by (cases n) auto




lemma nids_cloneNode:
  "nids (fst (cloneNode f n)) = [f..<snd (cloneNode f n)]"
  "concat (map (\<lambda>c. map nid (elements c)) (fst (cloneNodes f cs))) = [f..<snd (cloneNodes f cs)]"
proof (induction f n and f cs rule: cloneNode_cloneNodes.induct)
  case (1 n s)
  then show ?case by (simp add: nids_def)
next
  case (2 n i ns t a cs)
  obtain cs' n' where c: "cloneNodes (Suc n) cs = (cs', n')" by (cases "cloneNodes (Suc n) cs")
  have "Suc n \<le> n'" using cloneNode_size(2) [of "Suc n" cs] c by simp
  then have "n # [Suc n..<n'] = [n..<n']" by (simp add: upt_rec)
  with 2 c show ?case by (simp add: nids_def map_concat comp_def)
next
  case (3 n)
  then show ?case by simp
next
  case (4 n c cs)
  obtain c' n1 where c: "cloneNode n c = (c', n1)" by (cases "cloneNode n c")
  obtain cs' n2 where cs: "cloneNodes n1 cs = (cs', n2)" by (cases "cloneNodes n1 cs")
  have le1: "n \<le> n1" using cloneNode_size(1) [of n c] c by simp
  have le2: "n1 \<le> n2" using cloneNode_size(2) [of n1 cs] cs by simp
  have "[n..<n1] @ [n1..<n2] = [n..<n2]" using le1 le2 by (metis le_Suc_ex upt_add_eq_append)
  with 4 c cs show ?case by (simp add: nids_def)
qed




















section \<open>Unique identifiers (C2)\<close>

lemma lift_attrs_simp [simp]: "lift_attrs f (b, i, t, a) = (b, i, t, f i a)"
  by (simp add: lift_attrs_def)

lemma info_map_attrs: "info b (map_attrs f n) = map (lift_attrs f) (info b n)"
proof (induction n arbitrary: b)
  case (Element i ns t a cs)
  have "concat (map (info (b \<or> t = ''defs'') \<circ> map_attrs f) cs)
        = concat (map (map (lift_attrs f) \<circ> info (b \<or> t = ''defs'')) cs)"
    using Element by (intro arg_cong [where f = concat] map_cong) simp_all
  then show ?case by (simp add: map_concat)
qed simp

lemma desc_info_map_descendant_attrs:
  "desc_info (map_descendant_attrs f svg) = map (lift_attrs f) (desc_info svg)"
proof (cases svg)
  case (Element i ns t a cs)
  have "concat (map (info (t = ''defs'') \<circ> map_attrs f) cs)
        = concat (map (map (lift_attrs f) \<circ> info (t = ''defs'')) cs)"
    by (intro arg_cong [where f = concat] map_cong) (simp_all add: info_map_attrs)
  with Element show ?thesis by (simp add: map_concat)
qed simp

lemma map_attrs_as_descendant:
  assumes "\<And>a. f (nid svg) a = a" and "is_element svg"
  shows "map_attrs f svg = map_descendant_attrs f svg"
  using assms by (cases svg) simp_all

lemma info_elements:
  "map (\<lambda>h. (fst (snd h), snd (snd (snd h)))) (info b n) = map (\<lambda>e. (nid e, attrs e)) (elements n)"
proof (induction n arbitrary: b)
  case (Element i ns t a cs)
  have "concat (map (map (\<lambda>h. (fst (snd h), snd (snd (snd h)))) \<circ> info (b \<or> t = ''defs'')) cs)
      = concat (map (map (\<lambda>e. (nid e, attrs e)) \<circ> elements) cs)"
    using Element by (intro arg_cong [where f = concat] map_cong) simp_all
  then show ?case by (simp add: map_concat)
qed simp

lemma desc_info_descendants:
  "map (\<lambda>h. (fst (snd h), snd (snd (snd h)))) (desc_info svg)
     = map (\<lambda>e. (nid e, attrs e)) (descendants svg)"
proof (cases svg)
  case (Element i ns t a cs)
  have "concat (map (map (\<lambda>h. (fst (snd h), snd (snd (snd h)))) \<circ> info (t = ''defs'')) cs)
      = concat (map (map (\<lambda>e. (nid e, attrs e)) \<circ> elements) cs)"
    by (intro arg_cong [where f = concat] map_cong) (simp_all add: info_elements)
  with Element show ?thesis by (simp add: map_concat)
qed simp

lemma defs_scoped_info:
  "map nid (defs_scoped b X n)
     = map (\<lambda>h. fst (snd h))
         (filter (\<lambda>h. fst h \<and> fst (snd (snd h)) = X \<and> map_of (snd (snd (snd h))) ''id'' \<noteq> None)
                 (info b n))"
proof (induction n arbitrary: b)
  case (Element i ns t a cs)
  let ?P = "\<lambda>h. fst h \<and> fst (snd (snd h)) = X \<and> map_of (snd (snd (snd h))) ''id'' \<noteq> None"
  have "concat (map (map nid \<circ> defs_scoped (b \<or> t = ''defs'') X) cs)
      = concat (map (map (\<lambda>h. fst (snd h)) \<circ> filter ?P \<circ> info (b \<or> t = ''defs'')) cs)"
    using Element by (intro arg_cong [where f = concat] map_cong) simp_all
  then show ?case by (simp add: map_concat filter_concat comp_def)
qed simp

lemma querySelectorAll_defs_info:
  "map nid (querySelectorAll_defs X svg)
     = map (\<lambda>h. fst (snd h))
         (filter (\<lambda>h. fst h \<and> fst (snd (snd h)) = X \<and> map_of (snd (snd (snd h))) ''id'' \<noteq> None)
                 (desc_info svg))"
proof (cases svg)
  case (Element i ns t a cs)
  let ?P = "\<lambda>h. fst h \<and> fst (snd (snd h)) = X \<and> map_of (snd (snd (snd h))) ''id'' \<noteq> None"
  have "concat (map (map nid \<circ> defs_scoped (t = ''defs'') X) cs)
      = concat (map (map (\<lambda>h. fst (snd h)) \<circ> filter ?P \<circ> info (t = ''defs'')) cs)"
    by (intro arg_cong [where f = concat] map_cong) (simp_all add: defs_scoped_info)
  with Element show ?thesis by (simp add: map_concat filter_concat comp_def)
qed simp

lemma map_of_ref_step:
  "map_of (ref_step cur new p a) q
     = (if q = p \<and> attr_contains a p cur then Some (url_ref new) else map_of a q)"
  by (simp add: ref_step_def update_conv')

lemma attr_contains_cong:
  "map_of a p = map_of a' p \<Longrightarrow> attr_contains a p cur = attr_contains a' p cur"
  by (simp add: attr_contains_def)

lemma map_of_fold_ref_step_other:
  "q \<notin> set props \<Longrightarrow> map_of (fold (ref_step cur new) props a) q = map_of a q"
  by (induction props arbitrary: a) (simp_all add: map_of_ref_step)

lemma map_of_fold_ref_step:
  assumes "distinct props"
  shows "map_of (fold (ref_step cur new) props a) q
           = map_option (\<lambda>v. if q \<in> set props \<and> cur \<noteq> [] \<and> contains_str v cur
                              then url_ref new else v) (map_of a q)"
  using assms
proof (induction props arbitrary: a)
  case Nil
  then show ?case by (simp add: option.map_ident)
next
  case (Cons p props)
  show ?case
  proof (cases "q = p")
    case True
    then have "q \<notin> set props" using Cons.prems by simp
    then have "map_of (fold (ref_step cur new) (p # props) a) q = map_of (ref_step cur new p a) q"
      by (simp add: map_of_fold_ref_step_other)
    then show ?thesis using True
      by (cases "map_of a p") (auto simp: map_of_ref_step attr_contains_def)
  next
    case False
    have "map_of (fold (ref_step cur new) (p # props) a) q
            = map_option (\<lambda>v. if q \<in> set props \<and> cur \<noteq> [] \<and> contains_str v cur
                              then url_ref new else v) (map_of (ref_step cur new p a) q)"
      using Cons by simp
    then show ?thesis using False by (simp add: map_of_ref_step)
  qed
qed

lemma map_of_astep_other:
  assumes "distinct props" and "q \<noteq> ''id''"
  shows "map_of (astep n props cur d i a) q
           = map_option (follow_step n q (props, cur)) (map_of a q)"
proof -
  have "map_of (astep n props cur d i a) q = map_of (fold (ref_step cur (cur @ ''-'' @ dec n)) props a) q"
    using assms(2) by (simp add: astep_def update_conv')
  also have "\<dots> = map_option (follow_step n q (props, cur)) (map_of a q)"
    unfolding map_of_fold_ref_step [OF assms(1)] follow_step_def by simp
  finally show ?thesis .
qed

lemma map_of_astep_id:
  assumes "''id'' \<notin> set props"
  shows "map_of (astep n props cur d i a) ''id''
           = (if i = d then Some (cur @ ''-'' @ dec n) else map_of a ''id'')"
  using assms by (simp add: astep_def update_conv' map_of_fold_ref_step_other)

lemma is_element_map_descendant_attrs [simp]:
  "is_element (map_descendant_attrs f svg) = is_element svg"
  by (cases svg) simp_all

lemma nid_map_descendant_attrs [simp]:
  "nid (map_descendant_attrs f svg) = nid svg"
  by (cases svg) simp_all

lemma map_attrs_comp: "map_attrs g (map_attrs f c) = map_attrs (\<lambda>i a. g i (f i a)) c"
  by (induction c) simp_all

lemma map_attrs_ident: "map_attrs (\<lambda>i a. a) c = c"
  by (induction c) (simp_all add: map_idI)

lemma map_descendant_attrs_comp:
  "map_descendant_attrs g (map_descendant_attrs f svg)
     = map_descendant_attrs (\<lambda>i a. g i (f i a)) svg"
  by (cases svg) (simp_all add: map_attrs_comp comp_def)

lemma map_descendant_attrs_ident: "map_descendant_attrs (\<lambda>i a. a) svg = svg"
  by (cases svg) (simp_all add: map_attrs_ident map_idI)

lemma literal_rewrite_references_ref_step:
  "literal_rewrite_references p cur new = map_descendant_attrs (\<lambda>i. ref_step cur new p)"
  unfolding literal_rewrite_references_def ref_step_def ..

lemma fold_rewrite_references:
  "fold (\<lambda>property. literal_rewrite_references property cur new) props svg
     = map_descendant_attrs (\<lambda>i. fold (ref_step cur new) props) svg"
proof (induction props arbitrary: svg)
  case Nil
  show ?case by (simp add: map_descendant_attrs_ident)
next
  case (Cons p props)
  have "fold (\<lambda>property. literal_rewrite_references property cur new) (p # props) svg
      = fold (\<lambda>property. literal_rewrite_references property cur new) props
          (literal_rewrite_references p cur new svg)"
    by simp
  also have "\<dots> = map_descendant_attrs (\<lambda>i. fold (ref_step cur new) props)
          (literal_rewrite_references p cur new svg)"
    by (rule Cons)
  also have "\<dots> = map_descendant_attrs (\<lambda>i. fold (ref_step cur new) props)
          (map_descendant_attrs (\<lambda>i. ref_step cur new p) svg)"
    by (simp only: literal_rewrite_references_ref_step)
  also have "\<dots> = map_descendant_attrs (\<lambda>i. fold (ref_step cur new) (p # props)) svg"
    by (simp add: map_descendant_attrs_comp comp_def)
  finally show ?case .
qed

lemma literal_rename_def_map:
  assumes "is_element svg" and "nid svg \<noteq> d"
  shows "literal_rename_def n props d svg
           = map_descendant_attrs (astep n props (element_id d svg) d) svg"
proof -
  let ?cur = "element_id d svg"
  let ?new = "?cur @ ''-'' @ dec n"
  let ?svg1 = "map_descendant_attrs (\<lambda>i. fold (ref_step ?cur ?new) props) svg"
  have "literal_rename_def n props d svg = update_element d (AList.update ''id'' ?new) ?svg1"
    by (simp add: literal_rename_def_def Let_def fold_rewrite_references)
  also have "\<dots> = map_descendant_attrs (\<lambda>i a. if i = d then AList.update ''id'' ?new a else a) ?svg1"
    unfolding update_element_def using assms by (intro map_attrs_as_descendant) simp_all
  also have "\<dots> = map_descendant_attrs
      (\<lambda>i a. if i = d then AList.update ''id'' ?new (fold (ref_step ?cur ?new) props a)
              else fold (ref_step ?cur ?new) props a) svg"
    by (simp only: map_descendant_attrs_comp)
  also have "(\<lambda>i a. if i = d then AList.update ''id'' ?new (fold (ref_step ?cur ?new) props a)
                  else fold (ref_step ?cur ?new) props a) = astep n props ?cur d"
    by (intro ext) (simp add: astep_def)
  finally show ?thesis .
qed

lemma elements_are_elements: "e \<in> set (elements n) \<Longrightarrow> is_element e"
  by (induction n arbitrary: e) auto

lemma descendants_are_elements: "e \<in> set (descendants svg) \<Longrightarrow> is_element e"
  by (cases svg) (auto dest: elements_are_elements)

lemma find_id_pairs:
  assumes "\<forall>e\<in>set es. is_element e"
  shows "(case find (is_node d) es of
            None \<Rightarrow> []
          | Some e \<Rightarrow> (case getAttribute e ''id'' of None \<Rightarrow> [] | Some v \<Rightarrow> v))
         = pid d (map (\<lambda>e. (nid e, attrs e)) es)"
  using assms
proof (induction es)
  case Nil
  then show ?case by (simp add: pid_def)
next
  case (Cons e es)
  then obtain i ns t a cs where e: "e = Element i ns t a cs" by (cases e) auto
  show ?case
  proof (cases "i = d")
    case True
    then show ?thesis using e by (simp add: pid_def getAttribute_def)
  next
    case False
    then show ?thesis using e Cons by (simp add: pid_def)
  qed
qed

lemma element_id_pairs:
  assumes "is_element svg" and "nid svg \<noteq> d"
  shows "element_id d svg = pid d (pairs svg)"
proof -
  obtain i ns t a cs where svg: "svg = Element i ns t a cs" using assms(1) by (cases svg) auto
  have "find_element d [svg] = find (is_node d) (descendants svg)"
    using svg assms(2) by (simp add: find_element_def)
  then have "element_id d svg
      = (case find (is_node d) (descendants svg) of
            None \<Rightarrow> []
          | Some e \<Rightarrow> (case getAttribute e ''id'' of None \<Rightarrow> [] | Some v \<Rightarrow> v))"
    by (simp add: element_id_def)
  also have "\<dots> = pid d (map (\<lambda>e. (nid e, attrs e)) (descendants svg))"
    by (rule find_id_pairs) (simp add: descendants_are_elements)
  finally show ?thesis by (simp add: pairs_def desc_info_descendants)
qed

lemma pairs_map_descendant_attrs:
  "pairs (map_descendant_attrs f svg) = map (\<lambda>p. (fst p, f (fst p) (snd p))) (pairs svg)"
  by (simp add: pairs_def desc_info_map_descendant_attrs lift_attrs_def split_def)

lemma pid_map_keeps:
  assumes "\<And>a. map_of (f x a) ''id'' = map_of a ''id''"
  shows "pid x (map (\<lambda>p. (fst p, f (fst p) (snd p))) ps) = pid x ps"
proof (induction ps)
  case Nil
  then show ?case by (simp add: pid_def)
next
  case (Cons p ps)
  show ?case
  proof (cases "fst p = x")
    case True
    then show ?thesis using assms by (simp add: pid_def)
  next
    case False
    then show ?thesis using Cons by (simp add: pid_def)
  qed
qed

lemma element_id_rename_other:
  assumes "is_element t" and "nid t \<noteq> d" and "nid t \<noteq> x" and "x \<noteq> d" and "''id'' \<notin> set props"
  shows "element_id x (literal_rename_def n props d t) = element_id x t"
proof -
  let ?f = "astep n props (element_id d t) d"
  have t1: "literal_rename_def n props d t = map_descendant_attrs ?f t"
    using assms(1,2) by (rule literal_rename_def_map)
  have "element_id x (literal_rename_def n props d t) = pid x (pairs (map_descendant_attrs ?f t))"
    unfolding t1 using assms(1,3) by (intro element_id_pairs) simp_all
  also have "\<dots> = pid x (pairs t)"
    unfolding pairs_map_descendant_attrs
    by (rule pid_map_keeps) (use assms(4,5) in \<open>simp add: map_of_astep_id\<close>)
  also have "\<dots> = element_id x t"
    using assms(1,3) by (rule element_id_pairs [symmetric])
  finally show ?thesis .
qed

lemma follow_Nil: "follow n p [] = (\<lambda>v. v)"
  by (rule ext) (simp add: follow_def)

lemma follow_Cons: "follow n p (e # pl) v = follow n p pl (follow_step n p e v)"
  by (simp add: follow_def)

lemma follow_Cons_fun:
  "follow n p (e # pl) = (\<lambda>v. follow n p pl (follow_step n p e v))"
  by (rule ext) (simp add: follow_def)

lemma rename_all_attrs:
  assumes "is_element t" and "nid t \<notin> snd ` set L" and "distinct (map snd L)"
      and "\<forall>(props, d)\<in>set L. distinct props \<and> ''id'' \<notin> set props"
  shows "\<exists>G. rename_all n L t = map_descendant_attrs G t \<and>
          (\<forall>i a. (\<forall>p. p \<noteq> ''id'' \<longrightarrow>
                      map_of (G i a) p = map_option (follow n p (id_plan t L)) (map_of a p))
                \<and> map_of (G i a) ''id'' =
                    (if i \<in> snd ` set L then Some (element_id i t @ ''-'' @ dec n)
                     else map_of a ''id''))"
  using assms
proof (induction L arbitrary: t)
  case Nil
  have "rename_all n [] t = map_descendant_attrs (\<lambda>i a. a) t"
    by (simp add: rename_all_def map_descendant_attrs_ident)
  moreover have "\<forall>i a. (\<forall>p. p \<noteq> ''id'' \<longrightarrow>
                      map_of a p = map_option (follow n p (id_plan t [])) (map_of a p))
                \<and> map_of a ''id'' = (if i \<in> snd ` set [] then Some (element_id i t @ ''-'' @ dec n)
                     else map_of a ''id'')"
    by (simp add: id_plan_def follow_Nil option.map_ident)
  ultimately show ?case by blast
next
  case (Cons e L)
  obtain props d where e: "e = (props, d)" by (cases e)
  let ?cur = "element_id d t"
  let ?t1 = "literal_rename_def n props d t"
  have d: "nid t \<noteq> d" and props: "distinct props" "''id'' \<notin> set props"
    using Cons.prems e by auto
  have t1: "?t1 = map_descendant_attrs (astep n props ?cur d) t"
    using Cons.prems(1) d by (rule literal_rename_def_map)
  have el1: "is_element ?t1" and nid1: "nid ?t1 = nid t"
    unfolding t1 using Cons.prems(1) by simp_all
  have "\<exists>G. rename_all n L ?t1 = map_descendant_attrs G ?t1 \<and>
          (\<forall>i a. (\<forall>p. p \<noteq> ''id'' \<longrightarrow>
                      map_of (G i a) p = map_option (follow n p (id_plan ?t1 L)) (map_of a p))
                \<and> map_of (G i a) ''id'' =
                    (if i \<in> snd ` set L then Some (element_id i ?t1 @ ''-'' @ dec n)
                     else map_of a ''id''))"
    by (rule Cons.IH) (use Cons.prems el1 nid1 in auto)
  then obtain G1 where G1: "rename_all n L ?t1 = map_descendant_attrs G1 ?t1"
    and G1p: "\<And>i a p. p \<noteq> ''id'' \<Longrightarrow>
                      map_of (G1 i a) p = map_option (follow n p (id_plan ?t1 L)) (map_of a p)"
    and G1i: "\<And>i a. map_of (G1 i a) ''id'' =
                    (if i \<in> snd ` set L then Some (element_id i ?t1 @ ''-'' @ dec n)
                     else map_of a ''id'')"
    by blast
  have other: "\<And>x. x \<in> snd ` set L \<Longrightarrow> element_id x ?t1 = element_id x t"
  proof -
    fix x assume x: "x \<in> snd ` set L"
    then have "nid t \<noteq> x" "x \<noteq> d" using Cons.prems(2,3) e by auto
    with Cons.prems(1) d props(2) show "element_id x ?t1 = element_id x t"
      by (intro element_id_rename_other) simp_all
  qed
  have pl: "id_plan ?t1 L = id_plan t L"
    unfolding id_plan_def
  proof (rule map_cong)
    fix x assume x: "x \<in> set L"
    obtain ps y where xy: "x = (ps, y)" by (cases x)
    with x have "y \<in> snd ` set L" by force
    then show "(case x of (props, d) \<Rightarrow> (props, element_id d ?t1))
             = (case x of (props, d) \<Rightarrow> (props, element_id d t))"
      using xy by (simp add: other)
  qed simp
  let ?G = "\<lambda>i a. G1 i (astep n props ?cur d i a)"
  have "rename_all n (e # L) t = rename_all n L ?t1" by (simp add: rename_all_def e)
  also have "\<dots> = map_descendant_attrs G1 ?t1" by (rule G1)
  also have "\<dots> = map_descendant_attrs G1 (map_descendant_attrs (astep n props ?cur d) t)"
    using t1 by simp
  also have "\<dots> = map_descendant_attrs ?G t"
    by (rule map_descendant_attrs_comp)
  finally have whole: "rename_all n (e # L) t = map_descendant_attrs ?G t" .
  have "\<And>i a p. p \<noteq> ''id'' \<Longrightarrow>
          map_of (?G i a) p = map_option (follow n p (id_plan t (e # L))) (map_of a p)"
  proof -
    fix i a and p :: string assume p: "p \<noteq> ''id''"
    have "map_of (?G i a) p
        = map_option (follow n p (id_plan t L)) (map_of (astep n props ?cur d i a) p)"
      using G1p [OF p] pl by simp
    also have "\<dots> = map_option (follow n p (id_plan t L))
                      (map_option (follow_step n p (props, ?cur)) (map_of a p))"
      using props(1) p by (simp add: map_of_astep_other)
    also have "\<dots> = map_option (follow n p (id_plan t (e # L))) (map_of a p)"
      by (simp add: option.map_comp comp_def id_plan_def e follow_Cons_fun)
    finally show "map_of (?G i a) p = map_option (follow n p (id_plan t (e # L))) (map_of a p)" .
  qed
  moreover have "map_of (?G i a) ''id'' =
                    (if i \<in> snd ` set (e # L) then Some (element_id i t @ ''-'' @ dec n)
                     else map_of a ''id'')" for i a
  proof -
    have "d \<notin> snd ` set L" using Cons.prems(3) e by auto
    then show ?thesis
      using G1i [of i "astep n props ?cur d i a"] other [of i] props(2) e
      by (auto simp: map_of_astep_id)
  qed
  ultimately show ?case using whole by blast
qed

lemma qsa_nids: "map nid (querySelectorAll_defs X t) = map (\<lambda>h. fst (snd h)) (filter (scoped X) (desc_info t))"
  unfolding scoped_def [abs_def] by (rule querySelectorAll_defs_info)

lemma nids_Element:
  "is_element t \<Longrightarrow> nids t = nid t # map (\<lambda>h. fst (snd h)) (desc_info t)"
proof -
  assume "is_element t"
  then obtain i ns tg a cs where t: "t = Element i ns tg a cs" by (cases t) auto
  have "map fst (map (\<lambda>h. (fst (snd h), snd (snd (snd h)))) (desc_info t))
      = map fst (map (\<lambda>e. (nid e, attrs e)) (descendants t))"
    by (simp only: desc_info_descendants)
  then have "map (\<lambda>h. fst (snd h)) (desc_info t) = map nid (descendants t)"
    by (simp add: comp_def)
  with t show ?thesis by (simp add: nids_def)
qed

lemma rename_all_append: "rename_all n (A @ B) t = rename_all n B (rename_all n A t)"
  by (simp add: rename_all_def)

lemma literal_rename_category_all:
  "literal_rename_category n (X, props) t
     = rename_all n (map (\<lambda>e. (props, nid e)) (querySelectorAll_defs X t)) t"
  by (simp add: literal_rename_category_def rename_all_def fold_map comp_def)

lemma same_entry:
  assumes "distinct (map f xs)" and "x \<in> set xs" and "y \<in> set xs" and "f x = f y"
  shows "x = y"
  using assms by (meson distinct_map inj_onD)

text \<open>Renaming the definitions of one query keeps the skeleton that the queries read.\<close>

lemma rename_all_keeps_queries:
  assumes "is_element t" and "distinct (nids t)"
      and "\<forall>(props, d)\<in>set L. distinct props \<and> ''id'' \<notin> set props"
      and "distinct (map snd L)"
      and "\<forall>(props, d)\<in>set L. \<exists>h\<in>set (desc_info t). fst (snd h) = d \<and> map_of (snd (snd (snd h))) ''id'' \<noteq> None"
  shows "map (\<lambda>h. (fst h, fst (snd h), fst (snd (snd h)), map_of (snd (snd (snd h))) ''id'' \<noteq> None))
             (desc_info (rename_all n L t))
       = map (\<lambda>h. (fst h, fst (snd h), fst (snd (snd h)), map_of (snd (snd (snd h))) ''id'' \<noteq> None))
             (desc_info t)"
    and "is_element (rename_all n L t)" and "nid (rename_all n L t) = nid t"
proof -
  have nd: "distinct (nid t # map (\<lambda>h. fst (snd h)) (desc_info t))"
    using assms(1,2) by (simp add: nids_Element)
  have root: "nid t \<notin> snd ` set L"
  proof
    assume "nid t \<in> snd ` set L"
    then obtain props where "(props, nid t) \<in> set L" by auto
    with assms(5) obtain h where "h \<in> set (desc_info t)" "fst (snd h) = nid t" by auto
    then have "nid t \<in> (\<lambda>h. fst (snd h)) ` set (desc_info t)" by (metis imageI)
    with nd show False by simp
  qed
  obtain G where G: "rename_all n L t = map_descendant_attrs G t"
    and Gi: "\<And>i a. map_of (G i a) ''id'' =
                    (if i \<in> snd ` set L then Some (element_id i t @ ''-'' @ dec n)
                     else map_of a ''id'')"
    using rename_all_attrs [OF assms(1) root assms(4,3), of n] by blast
  show "is_element (rename_all n L t)" and "nid (rename_all n L t) = nid t"
    unfolding G using assms(1) by simp_all
  have "\<And>h. h \<in> set (desc_info t) \<Longrightarrow>
          (map_of (G (fst (snd h)) (snd (snd (snd h)))) ''id'' \<noteq> None)
            = (map_of (snd (snd (snd h))) ''id'' \<noteq> None)"
  proof -
    fix h assume h: "h \<in> set (desc_info t)"
    show "(map_of (G (fst (snd h)) (snd (snd (snd h)))) ''id'' \<noteq> None)
            = (map_of (snd (snd (snd h))) ''id'' \<noteq> None)"
    proof (cases "fst (snd h) \<in> snd ` set L")
      case True
      then obtain props where "(props, fst (snd h)) \<in> set L" by auto
      with assms(5) obtain h' where h': "h' \<in> set (desc_info t)" "fst (snd h') = fst (snd h)"
        "map_of (snd (snd (snd h'))) ''id'' \<noteq> None" by fastforce
      have "h' = h" using nd h h'(1,2) by (intro same_entry [where f = "\<lambda>h. fst (snd h)"]) simp_all
      with h'(3) True show ?thesis by (simp add: Gi)
    next
      case False
      then show ?thesis by (simp add: Gi)
    qed
  qed
  then show "map (\<lambda>h. (fst h, fst (snd h), fst (snd (snd h)), map_of (snd (snd (snd h))) ''id'' \<noteq> None))
             (desc_info (rename_all n L t))
       = map (\<lambda>h. (fst h, fst (snd h), fst (snd (snd h)), map_of (snd (snd (snd h))) ''id'' \<noteq> None))
             (desc_info t)"
    unfolding G desc_info_map_descendant_attrs by (simp add: lift_attrs_def split_def)
qed

lemma queries_from_skeleton:
  assumes "map (\<lambda>h. (fst h, fst (snd h), fst (snd (snd h)), map_of (snd (snd (snd h))) ''id'' \<noteq> None))
             (desc_info t1)
       = map (\<lambda>h. (fst h, fst (snd h), fst (snd (snd h)), map_of (snd (snd (snd h))) ''id'' \<noteq> None))
             (desc_info t)"
  shows "map nid (querySelectorAll_defs X t1) = map nid (querySelectorAll_defs X t)"
proof -
  let ?sk = "\<lambda>h::bool \<times> nat \<times> string \<times> attrs. (fst h, fst (snd h), fst (snd (snd h)), map_of (snd (snd (snd h))) ''id'' \<noteq> None)"
  let ?P = "\<lambda>s::bool \<times> nat \<times> string \<times> bool. fst s \<and> fst (snd (snd s)) = X \<and> snd (snd (snd s))"
  have "\<And>u. map (\<lambda>h. fst (snd h)) (filter (scoped X) (desc_info u))
        = map (\<lambda>s. fst (snd s)) (filter ?P (map ?sk (desc_info u)))"
    unfolding scoped_def [abs_def] by (simp add: filter_map comp_def)
  then show ?thesis using assms by (simp add: qsa_nids)
qed

lemma skeleton_nids:
  assumes "map (\<lambda>h. (fst h, fst (snd h), fst (snd (snd h)), map_of (snd (snd (snd h))) ''id'' \<noteq> None))
             (desc_info t1)
       = map (\<lambda>h. (fst h, fst (snd h), fst (snd (snd h)), map_of (snd (snd (snd h))) ''id'' \<noteq> None))
             (desc_info t)"
  shows "map (\<lambda>h. fst (snd h)) (desc_info t1) = map (\<lambda>h. fst (snd h)) (desc_info t)"
proof -
  let ?sk = "\<lambda>h::bool \<times> nat \<times> string \<times> attrs. (fst h, fst (snd h), fst (snd (snd h)), map_of (snd (snd (snd h))) ''id'' \<noteq> None)"
  have "map (\<lambda>s. fst (snd s)) (map ?sk (desc_info t1)) = map (\<lambda>s. fst (snd s)) (map ?sk (desc_info t))"
    using assms by simp
  then show ?thesis by (simp add: comp_def)
qed

lemma nid_plan_Cons:
  "nid_plan ((X, props) # cats) t
     = map (\<lambda>e. (props, nid e)) (querySelectorAll_defs X t) @ nid_plan cats t"
  by (simp add: nid_plan_def)

lemma nid_plan_from_nids:
  assumes "\<And>X. map nid (querySelectorAll_defs X t1) = map nid (querySelectorAll_defs X t)"
  shows "nid_plan cats t1 = nid_plan cats t"
proof -
  have "map (\<lambda>e. (props, nid e)) (querySelectorAll_defs X t1)
          = map (\<lambda>e. (props, nid e)) (querySelectorAll_defs X t)" for X and props :: "string list"
  proof -
    have "map (Pair props) (map nid (querySelectorAll_defs X t1))
        = map (Pair props) (map nid (querySelectorAll_defs X t))"
      by (simp only: assms)
    then show ?thesis by (simp add: comp_def)
  qed
  then show ?thesis by (simp add: nid_plan_def split_def)
qed

lemma query_has_id:
  assumes "d \<in> set (map nid (querySelectorAll_defs X t))"
  shows "\<exists>h\<in>set (desc_info t). fst (snd h) = d \<and> map_of (snd (snd (snd h))) ''id'' \<noteq> None
                                 \<and> fst (snd (snd h)) = X"
  using assms unfolding qsa_nids by (auto simp: scoped_def)

lemma query_distinct:
  assumes "is_element t" and "distinct (nids t)"
  shows "distinct (map nid (querySelectorAll_defs X t))"
proof -
  have "distinct (map (\<lambda>h. fst (snd h)) (desc_info t))"
    using assms by (simp add: nids_Element)
  then show ?thesis unfolding qsa_nids by (rule distinct_map_filter)
qed

lemma fold_rename_category:
  assumes "is_element t" and "distinct (nids t)"
      and "\<forall>(X, props)\<in>set cats. distinct props \<and> ''id'' \<notin> set props"
  shows "fold (literal_rename_category n) cats t = rename_all n (nid_plan cats t) t"
  using assms
proof (induction cats arbitrary: t)
  case Nil
  then show ?case by (simp add: nid_plan_def rename_all_def)
next
  case (Cons c cats)
  obtain X props where c: "c = (X, props)" by (cases c)
  let ?L = "map (\<lambda>e. (props, nid e)) (querySelectorAll_defs X t)"
  let ?t1 = "rename_all n ?L t"
  have props: "distinct props" "''id'' \<notin> set props" using Cons.prems(3) c by auto
  have snd_L: "map snd ?L = map nid (querySelectorAll_defs X t)" by (simp add: comp_def)
  have a3: "\<forall>(props, d)\<in>set ?L. distinct props \<and> ''id'' \<notin> set props" using props by auto
  have a4: "distinct (map snd ?L)"
    unfolding snd_L using Cons.prems(1,2) by (rule query_distinct)
  have a5: "\<forall>(props, d)\<in>set ?L. \<exists>h\<in>set (desc_info t). fst (snd h) = d
              \<and> map_of (snd (snd (snd h))) ''id'' \<noteq> None"
  proof (clarify)
    fix ps d assume "(ps, d) \<in> set ?L"
    then have "d \<in> set (map nid (querySelectorAll_defs X t))" by auto
    from query_has_id [OF this]
    show "\<exists>h\<in>set (desc_info t). fst (snd h) = d \<and> map_of (snd (snd (snd h))) ''id'' \<noteq> None"
      by blast
  qed
  note keeps = rename_all_keeps_queries [OF Cons.prems(1,2) a3 a4 a5, of n]
  have el1: "is_element ?t1" and nid1: "nid ?t1 = nid t" by (rule keeps(2), rule keeps(3))
  have dn1: "map (\<lambda>h. fst (snd h)) (desc_info ?t1) = map (\<lambda>h. fst (snd h)) (desc_info t)"
    using keeps(1) by (rule skeleton_nids)
  have d1: "distinct (nids ?t1)"
    using Cons.prems(1,2) el1 nid1 dn1 by (simp add: nids_Element)
  have plan1: "nid_plan cats ?t1 = nid_plan cats t"
    by (rule nid_plan_from_nids) (rule queries_from_skeleton [OF keeps(1)])
  have "fold (literal_rename_category n) (c # cats) t = fold (literal_rename_category n) cats ?t1"
    by (simp add: c literal_rename_category_all)
  also have "\<dots> = rename_all n (nid_plan cats ?t1) ?t1"
    by (rule Cons.IH) (use el1 d1 Cons.prems(3) in auto)
  also have "\<dots> = rename_all n (?L @ nid_plan cats t) t"
    by (simp add: plan1 rename_all_append)
  finally show ?case by (simp add: c nid_plan_Cons)
qed

lemma nid_plan_distinct:
  assumes "is_element t" and "distinct (nids t)" and "distinct (map fst cats)"
  shows "distinct (map snd (nid_plan cats t))"
  using assms(3)
proof (induction cats)
  case Nil
  then show ?case by (simp add: nid_plan_def)
next
  case (Cons c cats)
  obtain X props where c: "c = (X, props)" by (cases c)
  let ?A = "map nid (querySelectorAll_defs X t)"
  have nd: "distinct (map (\<lambda>h. fst (snd h)) (desc_info t))"
    using assms(1,2) by (simp add: nids_Element)
  have A: "distinct ?A" using assms(1,2) by (rule query_distinct)
  have B: "distinct (map snd (nid_plan cats t))" using Cons by simp
  have disj: "set ?A \<inter> set (map snd (nid_plan cats t)) = {}"
  proof (rule ccontr)
    assume "set ?A \<inter> set (map snd (nid_plan cats t)) \<noteq> {}"
    then obtain d where dA: "d \<in> set ?A" and dB: "d \<in> set (map snd (nid_plan cats t))" by auto
    from dB obtain Y ps where Y: "(Y, ps) \<in> set cats" and dY: "d \<in> set (map nid (querySelectorAll_defs Y t))"
      by (auto simp: nid_plan_def)
    from query_has_id [OF dA] obtain h where h: "h \<in> set (desc_info t)" "fst (snd h) = d"
      "fst (snd (snd h)) = X" by blast
    from query_has_id [OF dY] obtain h' where h': "h' \<in> set (desc_info t)" "fst (snd h') = d"
      "fst (snd (snd h')) = Y" by blast
    have "h = h'" using nd h(1) h'(1) h(2) h'(2)
      by (intro same_entry [where f = "\<lambda>h. fst (snd h)"]) simp_all
    with h(3) h'(3) have "X = Y" by simp
    moreover have "X \<notin> fst ` set cats" using Cons.prems c by simp
    ultimately show False using Y by force
  qed
  have "map snd (nid_plan (c # cats) t) = ?A @ map snd (nid_plan cats t)"
    by (simp add: c nid_plan_Cons comp_def)
  with A B disj show ?case by simp
qed

lemma nid_plan_has_id:
  assumes "(props, d) \<in> set (nid_plan cats t)"
  shows "\<exists>h\<in>set (desc_info t). fst (snd h) = d \<and> map_of (snd (snd (snd h))) ''id'' \<noteq> None"
proof -
  from assms obtain X where "d \<in> set (map nid (querySelectorAll_defs X t))"
    by (auto simp: nid_plan_def)
  from query_has_id [OF this] show ?thesis by blast
qed

lemma nid_plan_props:
  assumes "(props, d) \<in> set (nid_plan cats t)"
  shows "props \<in> snd ` set cats"
  using assms by (force simp: nid_plan_def)

lemma table_ok:
  "distinct (map fst iriElementsAndProperties)"
  "\<forall>(X, props)\<in>set iriElementsAndProperties. distinct props \<and> ''id'' \<notin> set props"
  by (simp_all add: iriElementsAndProperties_def)

lemma plan_id_plan: "plan svg = id_plan svg (nid_plan iriElementsAndProperties svg)"
  by (simp add: plan_def id_plan_def nid_plan_def map_concat comp_def split_def)

lemma literal_rewrite_ids_rename_all:
  assumes "is_element svg" and "distinct (nids svg)"
  shows "literal_rewrite_ids n svg = rename_all n (nid_plan iriElementsAndProperties svg) svg"
  unfolding literal_rewrite_ids_def using assms table_ok(2) by (rule fold_rename_category)

lemma plan_facts:
  assumes "is_element svg" and "distinct (nids svg)"
  shows "nid svg \<notin> snd ` set (nid_plan iriElementsAndProperties svg)"
    and "distinct (map snd (nid_plan iriElementsAndProperties svg))"
    and "\<forall>(props, d)\<in>set (nid_plan iriElementsAndProperties svg). distinct props \<and> ''id'' \<notin> set props"
    and "\<forall>(props, d)\<in>set (nid_plan iriElementsAndProperties svg).
           \<exists>h\<in>set (desc_info svg). fst (snd h) = d \<and> map_of (snd (snd (snd h))) ''id'' \<noteq> None"
proof -
  let ?L = "nid_plan iriElementsAndProperties svg"
  have nd: "distinct (nid svg # map (\<lambda>h. fst (snd h)) (desc_info svg))"
    using assms by (simp add: nids_Element)
  show has: "\<forall>(props, d)\<in>set ?L.
           \<exists>h\<in>set (desc_info svg). fst (snd h) = d \<and> map_of (snd (snd (snd h))) ''id'' \<noteq> None"
    using nid_plan_has_id by blast
  show "nid svg \<notin> snd ` set ?L"
  proof
    assume "nid svg \<in> snd ` set ?L"
    then obtain props where "(props, nid svg) \<in> set ?L" by auto
    with has obtain h where "h \<in> set (desc_info svg)" "fst (snd h) = nid svg" by auto
    then have "nid svg \<in> (\<lambda>h. fst (snd h)) ` set (desc_info svg)" by (metis imageI)
    with nd show False by simp
  qed
  show "distinct (map snd ?L)" using assms table_ok(1) by (rule nid_plan_distinct)
  show "\<forall>(props, d)\<in>set ?L. distinct props \<and> ''id'' \<notin> set props"
  proof (clarify)
    fix props d assume "(props, d) \<in> set ?L"
    then have "props \<in> snd ` set iriElementsAndProperties" by (rule nid_plan_props)
    then show "distinct props \<and> ''id'' \<notin> set props" using table_ok(2) by auto
  qed
qed

lemma literal_rewrite_ids_char:
  assumes "is_element svg" and "distinct (nids svg)"
  shows "\<exists>G. literal_rewrite_ids n svg = map_descendant_attrs G svg \<and>
          (\<forall>i a. (\<forall>p. p \<noteq> ''id'' \<longrightarrow>
                      map_of (G i a) p = map_option (follow n p (plan svg)) (map_of a p))
                \<and> map_of (G i a) ''id'' =
                    (if i \<in> snd ` set (nid_plan iriElementsAndProperties svg)
                     then Some (element_id i svg @ ''-'' @ dec n)
                     else map_of a ''id''))"
  unfolding literal_rewrite_ids_rename_all [OF assms] plan_id_plan
  using assms(1) plan_facts(1,2,3) [OF assms] by (rule rename_all_attrs)

lemma find_attr_pairs:
  assumes "\<forall>e\<in>set es. is_element e"
  shows "(case find (is_node x) es of None \<Rightarrow> None | Some e \<Rightarrow> getAttribute e p)
         = pattr x p (map (\<lambda>e. (nid e, attrs e)) es)"
  using assms
proof (induction es)
  case Nil
  then show ?case by (simp add: pattr_def)
next
  case (Cons e es)
  then obtain i ns t a cs where e: "e = Element i ns t a cs" by (cases e) auto
  show ?case
  proof (cases "i = x")
    case True
    then show ?thesis using e by (simp add: pattr_def getAttribute_def)
  next
    case False
    then show ?thesis using e Cons by (simp add: pattr_def)
  qed
qed

lemma attribute_of_pairs:
  assumes "is_element svg" and "nid svg \<noteq> x"
  shows "attribute_of svg x p = pattr x p (pairs svg)"
proof -
  obtain i ns t a cs where svg: "svg = Element i ns t a cs" using assms(1) by (cases svg) auto
  have "find_element x [svg] = find (is_node x) (descendants svg)"
    using svg assms(2) by (simp add: find_element_def)
  then have "attribute_of svg x p
      = (case find (is_node x) (descendants svg) of None \<Rightarrow> None | Some e \<Rightarrow> getAttribute e p)"
    by (simp add: attribute_of_def)
  also have "\<dots> = pattr x p (map (\<lambda>e. (nid e, attrs e)) (descendants svg))"
    by (rule find_attr_pairs) (simp add: descendants_are_elements)
  finally show ?thesis by (simp add: pairs_def desc_info_descendants)
qed

lemma pattr_map:
  "pattr x p (map (\<lambda>q. (fst q, f (fst q) (snd q))) ps)
     = (case find (\<lambda>q. fst q = x) ps of None \<Rightarrow> None | Some q \<Rightarrow> map_of (f x (snd q)) p)"
proof (induction ps)
  case Nil
  then show ?case by (simp add: pattr_def)
next
  case (Cons q ps)
  then show ?case by (cases "fst q = x") (simp_all add: pattr_def)
qed

lemma pid_map:
  "pid x (map (\<lambda>q. (fst q, f (fst q) (snd q))) ps)
     = (case find (\<lambda>q. fst q = x) ps of
          None \<Rightarrow> []
        | Some q \<Rightarrow> (case map_of (f x (snd q)) ''id'' of None \<Rightarrow> [] | Some v \<Rightarrow> v))"
proof (induction ps)
  case Nil
  then show ?case by (simp add: pid_def)
next
  case (Cons q ps)
  then show ?case by (cases "fst q = x") (simp_all add: pid_def)
qed

lemma attribute_of_rewrite_ids:
  assumes "is_element svg" and "distinct (nids svg)" and "x \<noteq> nid svg" and "p \<noteq> ''id''"
  shows "attribute_of (literal_rewrite_ids n svg) x p
           = map_option (follow n p (plan svg)) (attribute_of svg x p)"
proof -
  obtain G where G: "literal_rewrite_ids n svg = map_descendant_attrs G svg"
    and Gp: "\<And>i a. map_of (G i a) p = map_option (follow n p (plan svg)) (map_of a p)"
    using literal_rewrite_ids_char [OF assms(1,2), of n] assms(4) by blast
  have "attribute_of (literal_rewrite_ids n svg) x p = pattr x p (pairs (map_descendant_attrs G svg))"
    unfolding G using assms(1,3) by (intro attribute_of_pairs) simp_all
  also have "\<dots> = (case find (\<lambda>q. fst q = x) (pairs svg) of
                      None \<Rightarrow> None | Some q \<Rightarrow> map_of (G x (snd q)) p)"
    by (simp only: pairs_map_descendant_attrs pattr_map)
  also have "\<dots> = map_option (follow n p (plan svg)) (pattr x p (pairs svg))"
    by (simp add: pattr_def Gp split: option.splits)
  also have "pattr x p (pairs svg) = attribute_of svg x p"
    using assms(1,3) by (intro attribute_of_pairs [symmetric]) simp_all
  finally show ?thesis .
qed

lemma element_id_rewrite_ids:
  assumes "is_element svg" and "distinct (nids svg)"
      and "d \<in> snd ` set (nid_plan iriElementsAndProperties svg)"
  shows "element_id d (literal_rewrite_ids n svg) = element_id d svg @ ''-'' @ dec n"
proof -
  obtain G where G: "literal_rewrite_ids n svg = map_descendant_attrs G svg"
    and Gi: "\<And>i a. map_of (G i a) ''id'' =
                    (if i \<in> snd ` set (nid_plan iriElementsAndProperties svg)
                     then Some (element_id i svg @ ''-'' @ dec n)
                     else map_of a ''id'')"
    using literal_rewrite_ids_char [OF assms(1,2), of n] by blast
  have root: "nid svg \<noteq> d" using plan_facts(1) [OF assms(1,2)] assms(3) by auto
  from assms(3) obtain props where "(props, d) \<in> set (nid_plan iriElementsAndProperties svg)" by auto
  with plan_facts(4) [OF assms(1,2)] obtain h where h: "h \<in> set (desc_info svg)" "fst (snd h) = d"
    by auto
  then have "\<exists>q\<in>set (pairs svg). fst q = d" by (force simp: pairs_def)
  then obtain q where q: "find (\<lambda>q. fst q = d) (pairs svg) = Some q"
    by (cases "find (\<lambda>q. fst q = d) (pairs svg)") (auto simp: find_None_iff)
  have "element_id d (literal_rewrite_ids n svg) = pid d (pairs (map_descendant_attrs G svg))"
    unfolding G using assms(1) root by (intro element_id_pairs) simp_all
  also have "\<dots> = element_id d svg @ ''-'' @ dec n"
    using q assms(3) by (simp add: pairs_map_descendant_attrs pid_map Gi)
  finally show ?thesis .
qed

lemma nid_plan_rewrite_ids:
  assumes "is_element svg" and "distinct (nids svg)"
  shows "nid_plan cats (literal_rewrite_ids n svg) = nid_plan cats svg"
proof -
  note f = plan_facts [OF assms]
  note keeps = rename_all_keeps_queries [OF assms f(3) f(2) f(4), of n]
  show ?thesis
    unfolding literal_rewrite_ids_rename_all [OF assms]
    by (rule nid_plan_from_nids) (rule queries_from_skeleton [OF keeps(1)])
qed

lemma plan_rewrite_ids:
  assumes "is_element svg" and "distinct (nids svg)"
  shows "plan (literal_rewrite_ids n svg) = map (\<lambda>(props, i). (props, i @ ''-'' @ dec n)) (plan svg)"
proof -
  let ?L = "nid_plan iriElementsAndProperties svg"
  have "plan (literal_rewrite_ids n svg) = map (\<lambda>(props, d). (props, element_id d (literal_rewrite_ids n svg))) ?L"
    by (simp add: plan_id_plan id_plan_def nid_plan_rewrite_ids [OF assms])
  also have "\<dots> = map (\<lambda>(props, d). (props, element_id d svg @ ''-'' @ dec n)) ?L"
  proof (rule map_cong)
    fix e assume e: "e \<in> set ?L"
    obtain props d where pd: "e = (props, d)" by (cases e)
    with e have "d \<in> snd ` set ?L" by force
    from element_id_rewrite_ids [OF assms this, of n] pd
    show "(case e of (props, d) \<Rightarrow> (props, element_id d (literal_rewrite_ids n svg)))
        = (case e of (props, d) \<Rightarrow> (props, element_id d svg @ ''-'' @ dec n))" by simp
  qed simp
  also have "\<dots> = map (\<lambda>(props, i). (props, i @ ''-'' @ dec n)) (plan svg)"
    by (simp add: plan_id_plan id_plan_def split_def comp_def)
  finally show ?thesis .
qed

lemma scoped_ids_rewrite_ids:
  assumes "is_element svg" and "distinct (nids svg)"
  shows "scoped_ids (literal_rewrite_ids n svg) = map (\<lambda>i. i @ ''-'' @ dec n) (scoped_ids svg)"
  by (simp add: scoped_ids_def plan_rewrite_ids [OF assms] comp_def split_def)

lemma follow_step_mentions:
  "follow_step n p (props, cur) v
     = (if p \<in> set props \<and> mentions v cur then url_ref (cur @ ''-'' @ dec n) else v)"
  by (simp add: follow_step_def mentions_def)

lemma follow_stays:
  assumes "\<forall>(props', j)\<in>set pl. p \<in> set props' \<longrightarrow> j \<noteq> i
             \<longrightarrow> \<not> mentions (url_ref (i @ ''-'' @ dec n)) j"
  shows "follow n p pl (url_ref (i @ ''-'' @ dec n)) = url_ref (i @ ''-'' @ dec n)"
  using assms
proof (induction pl)
  case Nil
  then show ?case by (simp add: follow_def)
next
  case (Cons e pl)
  obtain props' j where e: "e = (props', j)" by (cases e)
  have "follow_step n p e (url_ref (i @ ''-'' @ dec n)) = url_ref (i @ ''-'' @ dec n)"
    using Cons.prems e by (cases "j = i") (auto simp: follow_step_mentions)
  then show ?case using Cons by (simp add: follow_Cons)
qed

lemma follow_strict:
  assumes "(props, i) \<in> set pl" and "p \<in> set props" and "mentions v i"
      and "\<forall>(props', j)\<in>set pl. p \<in> set props' \<longrightarrow> j \<noteq> i
             \<longrightarrow> \<not> mentions v j \<and> \<not> mentions (url_ref (i @ ''-'' @ dec n)) j"
  shows "follow n p pl v = url_ref (i @ ''-'' @ dec n)"
  using assms(1,4)
proof (induction pl)
  case Nil
  then show ?case by simp
next
  case (Cons e pl)
  obtain props' j where e: "e = (props', j)" by (cases e)
  have rest: "\<forall>(props', j)\<in>set pl. p \<in> set props' \<longrightarrow> j \<noteq> i
             \<longrightarrow> \<not> mentions (url_ref (i @ ''-'' @ dec n)) j"
    using Cons.prems(2) by auto
  show ?case
  proof (cases "p \<in> set props' \<and> mentions v j")
    case True
    then have "j = i" using Cons.prems(2) e by auto
    then have "follow_step n p e v = url_ref (i @ ''-'' @ dec n)"
      using True e by (simp add: follow_step_mentions)
    then show ?thesis using follow_stays [OF rest] by (simp add: follow_Cons)
  next
    case False
    then have same: "follow_step n p e v = v" using e by (auto simp: follow_step_mentions)
    have "e \<noteq> (props, i)" using False e assms(2,3) by auto
    then have "(props, i) \<in> set pl" using Cons.prems(1) by simp
    then have "follow n p pl v = url_ref (i @ ''-'' @ dec n)"
      by (rule Cons.IH) (use Cons.prems(2) in auto)
    then show ?thesis using same by (simp add: follow_Cons)
  qed
qed

lemma follow_within:
  assumes "set pl \<subseteq> S"
      and "\<exists>(props', j)\<in>S. p \<in> set props' \<and> v = url_ref (j @ ''-'' @ dec n)"
  shows "\<exists>(props', j)\<in>S. p \<in> set props' \<and> follow n p pl v = url_ref (j @ ''-'' @ dec n)"
  using assms
proof (induction pl arbitrary: v)
  case Nil
  then show ?case by (simp add: follow_def)
next
  case (Cons e pl)
  obtain props' j where e: "e = (props', j)" by (cases e)
  have "\<exists>(props', j)\<in>S. p \<in> set props' \<and> follow_step n p e v = url_ref (j @ ''-'' @ dec n)"
  proof (cases "p \<in> set props' \<and> mentions v j")
    case True
    then have "follow_step n p e v = url_ref (j @ ''-'' @ dec n)"
      using e by (simp add: follow_step_mentions)
    moreover have "(props', j) \<in> S" using Cons.prems(1) e by simp
    ultimately show ?thesis using True by blast
  next
    case False
    then have "follow_step n p e v = v" using e by (auto simp: follow_step_mentions)
    then show ?thesis using Cons.prems(2) by simp
  qed
  then have "\<exists>(props', j)\<in>S. p \<in> set props'
               \<and> follow n p pl (follow_step n p e v) = url_ref (j @ ''-'' @ dec n)"
    by (intro Cons.IH) (use Cons.prems(1) in auto)
  then show ?case by (simp add: follow_Cons)
qed

lemma follow_lenient_aux:
  assumes "set pl \<subseteq> S" and "(props, i) \<in> set pl" and "p \<in> set props" and "mentions v i"
  shows "\<exists>(props', j)\<in>S. p \<in> set props' \<and> follow n p pl v = url_ref (j @ ''-'' @ dec n)"
  using assms(1,2)
proof (induction pl)
  case Nil
  then show ?case by simp
next
  case (Cons e pl)
  obtain props' j where e: "e = (props', j)" by (cases e)
  have sub: "set pl \<subseteq> S" using Cons.prems(1) by simp
  show ?case
  proof (cases "p \<in> set props' \<and> mentions v j")
    case True
    then have st: "follow_step n p e v = url_ref (j @ ''-'' @ dec n)"
      using e by (simp add: follow_step_mentions)
    have "(props', j) \<in> S" using Cons.prems(1) e by simp
    with True st have "\<exists>(props', j)\<in>S. p \<in> set props'
                         \<and> follow_step n p e v = url_ref (j @ ''-'' @ dec n)" by blast
    from follow_within [OF sub this] show ?thesis by (simp add: follow_Cons)
  next
    case False
    then have same: "follow_step n p e v = v" using e by (auto simp: follow_step_mentions)
    have "e \<noteq> (props, i)" using False e assms(3,4) by auto
    then have "(props, i) \<in> set pl" using Cons.prems(2) by simp
    with sub have "\<exists>(props', j)\<in>S. p \<in> set props'
                     \<and> follow n p pl v = url_ref (j @ ''-'' @ dec n)" by (rule Cons.IH)
    then show ?thesis using same by (simp add: follow_Cons)
  qed
qed

lemma follow_lenient:
  assumes "(props, i) \<in> set pl" and "p \<in> set props" and "mentions v i"
  shows "\<exists>(props', j)\<in>set pl. p \<in> set props' \<and> follow n p pl v = url_ref (j @ ''-'' @ dec n)"
  using follow_lenient_aux [OF subset_refl assms] .

lemma digit_char_value: "d < 10 \<Longrightarrow> (of_char (digit_char d) :: nat) = 48 + d"
  by (simp add: digit_char_def)

lemma digit_char_not_dash: "d < 10 \<Longrightarrow> digit_char d \<noteq> CHR ''-''"
proof
  assume d: "d < 10" and "digit_char d = CHR ''-''"
  then have "(of_char (digit_char d) :: nat) = of_char (CHR ''-'')" by simp
  with d show False by (simp add: digit_char_value)
qed

lemma dec_no_dash: "CHR ''-'' \<notin> set (dec n)"
proof (induction n rule: dec.induct)
  case (1 n)
  show ?case
  proof (cases "n < 10")
    case True
    then show ?thesis using digit_char_not_dash [of n] by (subst dec.simps) auto
  next
    case False
    have "n mod 10 < 10" by simp
    then have "digit_char (n mod 10) \<noteq> CHR ''-''" by (rule digit_char_not_dash)
    with False 1 show ?thesis by (subst dec.simps) auto
  qed
qed

lemma dec_value: "foldl (\<lambda>acc c. 10 * acc + (of_char c - 48)) 0 (dec n) = n"
proof (induction n rule: dec.induct)
  case (1 n)
  show ?case
  proof (cases "n < 10")
    case True
    then show ?thesis by (subst dec.simps) (simp add: digit_char_value)
  next
    case False
    have "n mod 10 < 10" by simp
    then have "(of_char (digit_char (n mod 10)) :: nat) - 48 = n mod 10"
      by (simp add: digit_char_value)
    with False 1 show ?thesis by (subst dec.simps) simp
  qed
qed

lemma dec_inj: "dec n = dec m \<Longrightarrow> n = m"
proof -
  assume "dec n = dec m"
  then have "foldl (\<lambda>acc c. 10 * acc + (of_char c - 48)) 0 (dec n)
           = foldl (\<lambda>acc c. 10 * acc + (of_char c - 48)) (0::nat) (dec m)" by simp
  then show "n = m" by (simp only: dec_value)
qed

lemma suffix_determines_counter:
  assumes "x @ ''-'' @ dec n = y @ ''-'' @ dec m"
  shows "n = m"
proof -
  let ?P = "\<lambda>c. c \<noteq> CHR ''-''"
  have tw: "\<And>z k. takeWhile ?P (rev (z @ ''-'' @ dec k)) = rev (dec k)"
  proof -
    fix z k
    have "\<And>c. c \<in> set (rev (dec k)) \<Longrightarrow> ?P c" using dec_no_dash [of k] by auto
    then have "takeWhile ?P (rev (dec k) @ CHR ''-'' # rev z) = rev (dec k) @ takeWhile ?P (CHR ''-'' # rev z)"
      by (rule takeWhile_append2)
    then show "takeWhile ?P (rev (z @ ''-'' @ dec k)) = rev (dec k)" by simp
  qed
  have "takeWhile ?P (rev (x @ ''-'' @ dec n)) = takeWhile ?P (rev (y @ ''-'' @ dec m))"
    by (simp only: assms)
  then have "rev (dec n) = rev (dec m)" by (simp only: tw)
  then have "dec n = dec m" by simp
  then show ?thesis by (rule dec_inj)
qed

lemma suffixed_disjoint:
  assumes "n \<noteq> m"
  shows "set (map (\<lambda>i. i @ ''-'' @ dec n) A) \<inter> set (map (\<lambda>i. i @ ''-'' @ dec m) B) = {}"
proof (rule ccontr)
  assume "set (map (\<lambda>i. i @ ''-'' @ dec n) A) \<inter> set (map (\<lambda>i. i @ ''-'' @ dec m) B) \<noteq> {}"
  then obtain s where sA: "s \<in> (\<lambda>i. i @ ''-'' @ dec n) ` set A"
    and sB: "s \<in> (\<lambda>i. i @ ''-'' @ dec m) ` set B" by auto
  from sA obtain x where x: "s = x @ ''-'' @ dec n" by (rule imageE)
  from sB obtain y where y: "s = y @ ''-'' @ dec m" by (rule imageE)
  have "x @ ''-'' @ dec n = y @ ''-'' @ dec m" using x y by (rule subst)
  then have "n = m" by (rule suffix_determines_counter)
  with assms show False by simp
qed

lemma same_below_setAttribute: "is_element t \<Longrightarrow> same_below t (setAttribute k v t)"
  by (cases t) (auto simp: same_below_def setAttribute_def)

lemma same_below_removeAttribute: "is_element t \<Longrightarrow> same_below t (removeAttribute k t)"
  by (cases t) (auto simp: same_below_def removeAttribute_def)

lemma same_below_trans: "same_below a b \<Longrightarrow> same_below b c \<Longrightarrow> same_below a c"
  by (auto simp: same_below_def)

lemma same_below_is_element: "same_below t t1 \<Longrightarrow> is_element t \<and> is_element t1 \<and> nid t1 = nid t"
  by (auto simp: same_below_def)

lemma same_below_nids: "same_below t t1 \<Longrightarrow> nids t1 = nids t"
  by (auto simp: same_below_def nids_def)

lemma same_below_queries:
  "same_below t t1 \<Longrightarrow> querySelectorAll_defs X t1 = querySelectorAll_defs X t"
  by (auto simp: same_below_def)

lemma same_below_element_id:
  "same_below t t1 \<Longrightarrow> d \<noteq> nid t \<Longrightarrow> element_id d t1 = element_id d t"
  by (auto simp: same_below_def element_id_def find_element_def)

lemma same_below_attribute_of:
  "same_below t t1 \<Longrightarrow> x \<noteq> nid t \<Longrightarrow> attribute_of t1 x p = attribute_of t x p"
  by (auto simp: same_below_def attribute_of_def find_element_def)

lemma query_not_root:
  assumes "is_element t" and "distinct (nids t)" and "e \<in> set (querySelectorAll_defs X t)"
  shows "nid e \<noteq> nid t"
proof -
  have "nid e \<in> set (map nid (querySelectorAll_defs X t))" using assms(3) by simp
  from query_has_id [OF this] obtain h where "h \<in> set (desc_info t)" "fst (snd h) = nid e" by blast
  then have "nid e \<in> (\<lambda>h. fst (snd h)) ` set (desc_info t)" by (metis imageI)
  moreover have "nid t \<notin> (\<lambda>h. fst (snd h)) ` set (desc_info t)"
    using assms(1,2) by (simp add: nids_Element)
  ultimately show ?thesis by metis
qed

lemma same_below_plan:
  assumes "same_below t t1" and "distinct (nids t)"
  shows "plan t1 = plan t"
proof -
  have el: "is_element t" using assms(1) by (simp add: same_below_is_element)
  have "map (\<lambda>e. (props, element_id (nid e) t1)) (querySelectorAll_defs X t1)
      = map (\<lambda>e. (props, element_id (nid e) t)) (querySelectorAll_defs X t)"
    for X and props :: "string list"
    unfolding same_below_queries [OF assms(1)]
  proof (rule map_cong)
    fix e assume "e \<in> set (querySelectorAll_defs X t)"
    with el assms(2) have "nid e \<noteq> nid t" by (rule query_not_root)
    with assms(1) show "(props, element_id (nid e) t1) = (props, element_id (nid e) t)"
      by (simp add: same_below_element_id)
  qed simp
  then show ?thesis by (simp add: plan_def split_def)
qed

lemma is_element_rewrite_ids:
  assumes "is_element t" and "distinct (nids t)"
  shows "is_element (literal_rewrite_ids n t)" and "nid (literal_rewrite_ids n t) = nid t"
    and "nids (literal_rewrite_ids n t) = nids t"
proof -
  obtain G where G: "literal_rewrite_ids n t = map_descendant_attrs G t"
    using literal_rewrite_ids_char [OF assms, of n] by blast
  show el: "is_element (literal_rewrite_ids n t)" and nd: "nid (literal_rewrite_ids n t) = nid t"
    unfolding G using assms(1) by simp_all
  have "map (\<lambda>h. fst (snd h)) (desc_info (literal_rewrite_ids n t)) = map (\<lambda>h. fst (snd h)) (desc_info t)"
    unfolding G desc_info_map_descendant_attrs by (simp add: lift_attrs_def split_def comp_def)
  then show "nids (literal_rewrite_ids n t) = nids t"
    using el nd assms(1) by (simp add: nids_Element)
qed

lemma literal_prepare_below:
  assumes "is_element svg"
  shows "\<exists>t. same_below svg t \<and> literal_prepare n svg = removeAttribute ''xmlns:a'' (literal_rewrite_ids n t)"
proof -
  let ?t = "setAttribute ''preserveAspectRatio'' ''none''
             (setAttribute ''height'' ''100%'' (setAttribute ''width'' ''100%'' svg))"
  have 1: "same_below svg (setAttribute ''width'' ''100%'' svg)"
    using assms by (rule same_below_setAttribute)
  have 2: "same_below (setAttribute ''width'' ''100%'' svg)
             (setAttribute ''height'' ''100%'' (setAttribute ''width'' ''100%'' svg))"
    using 1 by (intro same_below_setAttribute) (simp add: same_below_is_element)
  have 3: "same_below (setAttribute ''height'' ''100%'' (setAttribute ''width'' ''100%'' svg)) ?t"
    using 2 by (intro same_below_setAttribute) (simp add: same_below_is_element)
  have "same_below svg ?t" using 1 2 3 same_below_trans by blast
  then show ?thesis by (auto simp: literal_prepare_def)
qed

lemma literal_prepare_facts:
  assumes "is_element svg" and "distinct (nids svg)"
  shows "scoped_ids (literal_prepare n svg) = map (\<lambda>i. i @ ''-'' @ dec n) (scoped_ids svg)"
    and "x \<noteq> nid svg \<Longrightarrow> p \<noteq> ''id'' \<Longrightarrow>
           attribute_of (literal_prepare n svg) x p
             = map_option (follow n p (plan svg)) (attribute_of svg x p)"
proof -
  obtain t where t: "same_below svg t" and pr: "literal_prepare n svg = removeAttribute ''xmlns:a'' (literal_rewrite_ids n t)"
    using literal_prepare_below [OF assms(1)] by blast
  have elt: "is_element t" and nidt: "nid t = nid svg" using t by (simp_all add: same_below_is_element)
  have dt: "distinct (nids t)" using t assms(2) by (simp add: same_below_nids)
  have plt: "plan t = plan svg" using t assms(2) by (rule same_below_plan)
  note rw = is_element_rewrite_ids [OF elt dt, of n]
  have below: "same_below (literal_rewrite_ids n t) (literal_prepare n svg)"
    unfolding pr using rw(1) by (rule same_below_removeAttribute)
  have "plan (literal_prepare n svg) = plan (literal_rewrite_ids n t)"
    using below rw(3) dt by (intro same_below_plan) simp_all
  then have "scoped_ids (literal_prepare n svg) = scoped_ids (literal_rewrite_ids n t)" by (simp add: scoped_ids_def)
  also have "\<dots> = map (\<lambda>i. i @ ''-'' @ dec n) (scoped_ids t)"
    using elt dt by (rule scoped_ids_rewrite_ids)
  also have "scoped_ids t = scoped_ids svg" using plt by (simp add: scoped_ids_def)
  finally show "scoped_ids (literal_prepare n svg) = map (\<lambda>i. i @ ''-'' @ dec n) (scoped_ids svg)" .
  assume x: "x \<noteq> nid svg" and p: "p \<noteq> ''id''"
  have "attribute_of (literal_prepare n svg) x p = attribute_of (literal_rewrite_ids n t) x p"
    using below x rw(2) nidt by (intro same_below_attribute_of) simp_all
  also have "\<dots> = map_option (follow n p (plan t)) (attribute_of t x p)"
    using elt dt x nidt p by (intro attribute_of_rewrite_ids) simp_all
  also have "attribute_of t x p = attribute_of svg x p"
    using t x by (rule same_below_attribute_of)
  finally show "attribute_of (literal_prepare n svg) x p
             = map_option (follow n p (plan svg)) (attribute_of svg x p)" using plt by simp
qed

subsection \<open>Identifiers that are plain: nothing throws\<close>

lemma plain_append: "plain (a @ b) = (plain a \<and> plain b)"
  by (simp add: plain_def)

lemma digit_plain: "d < 10 \<Longrightarrow> plain [digit_char d]"
proof -
  assume d: "d < 10"
  have v: "(of_char (digit_char d) :: nat) = 48 + d" using d by (rule digit_char_value)
  have "digit_char d \<noteq> c" if "(of_char c :: nat) < 48 \<or> 57 < (of_char c :: nat)" for c
    using v that d by auto
  then show ?thesis by (simp add: plain_def)
qed

lemma plain_dec: "plain (dec n)"
proof (induction n rule: dec.induct)
  case (1 n)
  show ?case
  proof (cases "n < 10")
    case True
    then show ?thesis by (subst dec.simps) (simp add: digit_plain)
  next
    case False
    then have "plain (dec (n div 10))" using 1 by simp
    moreover have "plain [digit_char (n mod 10)]" by (rule digit_plain) simp
    ultimately show ?thesis using False by (subst dec.simps) (simp add: plain_append)
  qed
qed

lemma plain_new: "plain cur \<Longrightarrow> plain (cur @ ''-'' @ dec n)"
  using plain_dec [of n] by (simp add: plain_def)

lemma plain_url_ref: "plain v \<Longrightarrow> plain (url_ref v)"
  unfolding url_ref_def by (simp add: plain_append) (simp add: plain_def)


lemma plain_ids_Element [simp]:
  "plain_ids (Element i ns t a cs)
     = (plain_attrs a \<and> list_all plain_ids cs)"
  by (induction cs) (auto simp: plain_ids_def plain_attrs_def getAttribute_def list_all_iff)

lemma plain_ids_Text [simp]: "plain_ids (Text s) = True"
  by (simp add: plain_ids_def)

lemma plain_ids_map_attrs:
  assumes "\<And>i a. plain_attrs a \<Longrightarrow> plain_attrs (f i a)"
  shows "plain_ids t \<Longrightarrow> plain_ids (map_attrs f t)"
  by (induction t) (auto simp: assms list_all_iff)

lemma plain_ids_map_descendant_attrs:
  assumes "\<And>i a. plain_attrs a \<Longrightarrow> plain_attrs (f i a)"
  shows "plain_ids t \<Longrightarrow> plain_ids (map_descendant_attrs f t)"
  by (cases t) (auto simp: assms list_all_iff plain_ids_map_attrs)

lemma plain_attrs_update:
  "plain_attrs a \<Longrightarrow> plain v \<Longrightarrow> plain_attrs (AList.update k v a)"
  by (auto simp: plain_attrs_def update_conv' split: option.splits if_splits)

lemma plain_attrs_delete:
  "plain_attrs a \<Longrightarrow> plain_attrs (AList.delete k a)"
  by (auto simp: plain_attrs_def delete_conv' split: option.splits if_splits)

lemma element_plain:
  "plain_ids t \<Longrightarrow> e \<in> set (elements t) \<Longrightarrow> plain_attrs (attrs e)"
  by (induction t arbitrary: e) (auto simp: list_all_iff)

lemma element_id_plain:
  assumes "plain_ids t"
  shows "plain (element_id d t)"
proof (cases "find_element d [t]")
  case None
  then show ?thesis by (simp add: element_id_def plain_def)
next
  case (Some e)
  then have "e \<in> set (elements t)"
    by (auto simp: find_element_def find_Some_iff in_set_conv_nth)
  then have "plain_attrs (attrs e)" and "is_element e"
    using assms by (auto intro: element_plain elements_are_elements)
  then show ?thesis using Some
    by (cases e) (auto simp: element_id_def getAttribute_def plain_attrs_def plain_def split: option.splits)
qed

lemma rewrite_references_plain:
  "plain cur \<Longrightarrow> rewrite_references env p cur new t = Inr (literal_rewrite_references p cur new t)"
  by (simp add: rewrite_references_def literal_rewrite_references_def)

lemma for_each_fold:
  assumes "Q s"
      and "\<And>x s. x \<in> set xs \<Longrightarrow> Q s \<Longrightarrow> f x s = Inr (g x s) \<and> Q (g x s)"
  shows "for_each f xs s = Inr (fold g xs s) \<and> Q (fold g xs s)"
  using assms by (induction xs arbitrary: s) simp_all

lemma literal_rewrite_references_plain_ids:
  assumes "plain_ids t" and "plain new"
  shows "plain_ids (literal_rewrite_references p cur new t)"
  unfolding literal_rewrite_references_def using assms
  by (intro plain_ids_map_descendant_attrs) (simp_all add: plain_attrs_update plain_url_ref)

lemma rename_def_plain:
  assumes "plain_ids t"
  shows "rename_def env n props d t = Inr (literal_rename_def n props d t)
       \<and> plain_ids (literal_rename_def n props d t)"
proof -
  let ?cur = "element_id d t"
  let ?new = "?cur @ ''-'' @ dec n"
  have cur: "plain ?cur" using assms by (rule element_id_plain)
  then have new: "plain ?new" by (rule plain_new)
  have fe: "for_each (\<lambda>property. rewrite_references env property ?cur ?new) props t
          = Inr (fold (\<lambda>property. literal_rewrite_references property ?cur ?new) props t)
        \<and> plain_ids (fold (\<lambda>property. literal_rewrite_references property ?cur ?new) props t)"
  proof (rule for_each_fold)
    show "plain_ids t" by (rule assms)
  next
    fix x s assume s: "plain_ids s"
    show "rewrite_references env x ?cur ?new s = Inr (literal_rewrite_references x ?cur ?new s)
        \<and> plain_ids (literal_rewrite_references x ?cur ?new s)"
      using rewrite_references_plain [OF cur] literal_rewrite_references_plain_ids [OF s new]
      by blast
  qed
  have "plain_ids (update_element d (AList.update ''id'' ?new)
          (fold (\<lambda>property. literal_rewrite_references property ?cur ?new) props t))"
    unfolding update_element_def using fe new
    by (intro plain_ids_map_attrs) (simp_all add: plain_attrs_update)
  with fe show ?thesis by (simp add: rename_def_def literal_rename_def_def Let_def)
qed

lemma rename_category_plain:
  assumes "plain_ids t"
  shows "rename_category env n entry t = Inr (literal_rename_category n entry t)
       \<and> plain_ids (literal_rename_category n entry t)"
proof -
  obtain X props where e: "entry = (X, props)" by (cases entry)
  have "for_each (rename_def env n props) (map nid (querySelectorAll_defs X t)) t
          = Inr (fold (literal_rename_def n props) (map nid (querySelectorAll_defs X t)) t)
        \<and> plain_ids (fold (literal_rename_def n props) (map nid (querySelectorAll_defs X t)) t)"
    using assms by (rule for_each_fold) (simp add: rename_def_plain)
  then show ?thesis using e by (simp add: rename_category_def literal_rename_category_def)
qed

lemma rewrite_ids_plain:
  assumes "plain_ids t"
  shows "rewrite_ids env n t = Inr (literal_rewrite_ids n t) \<and> plain_ids (literal_rewrite_ids n t)"
  unfolding rewrite_ids_def literal_rewrite_ids_def
  using assms by (rule for_each_fold) (simp add: rename_category_plain)

lemma plain_ids_setAttribute: "plain_ids t \<Longrightarrow> plain v \<Longrightarrow> plain_ids (setAttribute k v t)"
  by (cases t) (simp_all add: setAttribute_def plain_attrs_update)

lemma plain_ids_removeAttribute: "plain_ids t \<Longrightarrow> plain_ids (removeAttribute k t)"
  by (cases t) (simp_all add: removeAttribute_def plain_attrs_delete)

lemma prepare_plain:
  assumes "plain_ids svg"
  shows "prepare env n svg = Inr (literal_prepare n svg)"
proof -
  let ?t = "setAttribute ''preserveAspectRatio'' ''none''
             (setAttribute ''height'' ''100%'' (setAttribute ''width'' ''100%'' svg))"
  have "plain_ids ?t" using assms by (intro plain_ids_setAttribute) (simp_all add: plain_def)
  then have "rewrite_ids env n ?t = Inr (literal_rewrite_ids n ?t)" by (simp add: rewrite_ids_plain)
  then show ?thesis by (simp add: prepare_def literal_prepare_def)
qed

subsection \<open>What pruning the scripts and refreshing the styles leave\<close>

lemma subseq_concat_map:
  "(\<And>x. x \<in> set xs \<Longrightarrow> subseq (f x) (g x)) \<Longrightarrow> subseq (concat (map f xs)) (concat (map g xs))"
  by (induction xs) (auto intro: list_emb_append_mono)

lemma subseq_concat_filter: "subseq (concat (map f (filter P xs))) (concat (map f xs))"
  by (induction xs) (auto intro: list_emb_append_mono subseq_drop_many)

lemma info_refresh_style: "subseq (info b (refresh_style c)) (info b c)"
proof (induction c arbitrary: b)
  case (Element i ns t a cs)
  show ?case
  proof (cases "t = ''style''")
    case True
    then show ?thesis by simp
  next
    case False
    have "subseq (concat (map (\<lambda>c. info (b \<or> t = ''defs'') (refresh_style c)) cs))
                 (concat (map (info (b \<or> t = ''defs'')) cs))"
      by (rule subseq_concat_map) (rule Element)
    with False show ?thesis by (simp add: comp_def)
  qed
qed simp

lemma pruning_refl: "is_element t \<Longrightarrow> pruning t t"
  by (simp add: pruning_def)

lemma pruning_trans: "pruning a b \<Longrightarrow> pruning b c \<Longrightarrow> pruning a c"
  by (auto simp: pruning_def intro: subseq_order.trans)

lemma refresh_styles_pruning: "is_element t \<Longrightarrow> pruning (refresh_styles t) t"
proof (cases t)
  case (Element i ns tg a cs)
  have "subseq (concat (map (\<lambda>c. info (tg = ''defs'') (refresh_style c)) cs))
               (concat (map (info (tg = ''defs'')) cs))"
    by (rule subseq_concat_map) (rule info_refresh_style)
  with Element show ?thesis by (simp add: pruning_def comp_def)
qed simp

lemma removeChild_pruning: "removeChild t c = Inr t' \<Longrightarrow> pruning t' t"
  by (cases t) (auto simp: pruning_def subseq_concat_filter split: if_splits)

lemma prune_scripts_pruning:
  "prune_scripts ss t acc = Inr (t', acc') \<Longrightarrow> is_element t \<Longrightarrow> pruning t' t"
proof (induction ss arbitrary: t acc)
  case Nil
  then show ?case by (simp add: pruning_refl)
next
  case (Cons s ss)
  show ?case
  proof (cases "executable_type (getAttribute s ''type'')")
    case True
    with Cons.prems(1) obtain t1 where t1: "removeChild t (nid s) = Inr t1"
      and rest: "prune_scripts ss t1 (acc @ [textContent s]) = Inr (t', acc')"
      by (cases "removeChild t (nid s)") simp_all
    have p1: "pruning t1 t" using t1 by (rule removeChild_pruning)
    then have "is_element t1" by (simp add: pruning_def)
    with rest have "pruning t' t1" by (rule Cons.IH)
    with p1 show ?thesis using pruning_trans by blast
  next
    case False
    with Cons show ?thesis by simp
  qed
qed

lemma result_pruning:
  assumes "take_scripts p = Inr (svg4, payloads)" and "is_element p"
  shows "pruning (refresh_styles svg4) p"
proof -
  have a: "pruning svg4 p" using assms by (auto simp: take_scripts_def intro: prune_scripts_pruning)
  then have "is_element svg4" by (simp add: pruning_def)
  then have "pruning (refresh_styles svg4) svg4" by (rule refresh_styles_pruning)
  with a show ?thesis using pruning_trans by blast
qed

lemma pruning_nids:
  assumes "pruning r p"
  shows "subseq (nids r) (nids p)"
  using assms by (simp add: pruning_def nids_Element subseq_map)

lemma subseq_set: "subseq xs ys \<Longrightarrow> set xs \<subseteq> set ys"
  by (auto elim: list_emb_set)

lemma subseq_keeps_distinct: "subseq xs ys \<Longrightarrow> distinct ys \<Longrightarrow> distinct xs"
proof (induction rule: list_emb.induct)
  case (list_emb_Cons2 x y xs ys)
  then show ?case using subseq_set by fastforce
qed simp_all

lemma find_the_one:
  assumes "distinct (map f ys)" and "e \<in> set ys"
  shows "find (\<lambda>y. f y = f e) ys = Some e"
  using assms by (induction ys) (auto simp: image_iff)

lemma find_subseq:
  assumes "subseq xs ys" and "distinct (map f ys)" and "x \<in> f ` set xs"
  shows "find (\<lambda>y. f y = x) xs = find (\<lambda>y. f y = x) ys"
proof -
  from assms(3) obtain e where e: "e \<in> set xs" "x = f e" by auto
  have dx: "distinct (map f xs)" using assms(1,2) subseq_map subseq_keeps_distinct by blast
  have "e \<in> set ys" using e(1) assms(1) subseq_set by blast
  then show ?thesis using find_the_one [OF dx e(1)] find_the_one [OF assms(2)] e(2) by simp
qed


lemma pruning_pairs:
  assumes "pruning r p"
  shows "subseq (pairs r) (pairs p)"
  using assms by (simp add: pruning_def pairs_def subseq_map)

lemma pairs_nids: "is_element t \<Longrightarrow> nids t = nid t # map fst (pairs t)"
  by (simp add: nids_Element pairs_def comp_def)

lemma pruning_same:
  assumes "pruning r p" and "distinct (nids p)" and "x \<in> set (nids r)" and "x \<noteq> nid p"
  shows "attribute_of r x q = attribute_of p x q" and "element_id x r = element_id x p"
proof -
  have el: "is_element r" "is_element p" "nid r = nid p" using assms(1) by (simp_all add: pruning_def)
  have sub: "subseq (pairs r) (pairs p)" using assms(1) by (rule pruning_pairs)
  have d: "distinct (map fst (pairs p))" using assms(2) el(2) by (simp add: pairs_nids)
  have x: "x \<in> fst ` set (pairs r)" using assms(3,4) el by (simp add: pairs_nids)
  have f: "find (\<lambda>y. fst y = x) (pairs r) = find (\<lambda>y. fst y = x) (pairs p)"
    using sub d x by (rule find_subseq)
  have "attribute_of r x q = pattr x q (pairs r)"
    using el(1) assms(4) el(3) by (intro attribute_of_pairs) simp_all
  also have "\<dots> = pattr x q (pairs p)" by (simp add: pattr_def f)
  also have "\<dots> = attribute_of p x q"
    using el(2) assms(4) by (intro attribute_of_pairs [symmetric]) simp_all
  finally show "attribute_of r x q = attribute_of p x q" .
  have "element_id x r = pid x (pairs r)"
    using el(1) assms(4) el(3) by (intro element_id_pairs) simp_all
  also have "\<dots> = pid x (pairs p)" by (simp add: pid_def f)
  also have "\<dots> = element_id x p"
    using el(2) assms(4) by (intro element_id_pairs [symmetric]) simp_all
  finally show "element_id x r = element_id x p" .
qed

text \<open>The identifiers in scope, read off the list of descendants.\<close>

lemma element_id_entry:
  assumes "is_element t" and "distinct (nids t)" and "h \<in> set (desc_info t)"
  shows "element_id (fst (snd h)) t
           = (case map_of (snd (snd (snd h))) ''id'' of None \<Rightarrow> [] | Some v \<Rightarrow> v)"
proof -
  let ?e = "(fst (snd h), snd (snd (snd h)))"
  have d: "distinct (map fst (pairs t))" using assms(1,2) by (simp add: pairs_nids)
  have root: "nid t \<noteq> fst (snd h)" using assms by (force simp: nids_Element)
  have "?e \<in> set (pairs t)" using assms(3) by (force simp: pairs_def)
  from find_the_one [OF d this] have "find (\<lambda>y. fst y = fst (snd h)) (pairs t) = Some ?e" by simp
  then have "pid (fst (snd h)) (pairs t)
      = (case map_of (snd (snd (snd h))) ''id'' of None \<Rightarrow> [] | Some v \<Rightarrow> v)"
    by (simp add: pid_def)
  then show ?thesis using element_id_pairs [OF assms(1) root] by simp
qed

lemma scoped_ids_desc:
  assumes "is_element t" and "distinct (nids t)"
  shows "scoped_ids t
           = concat (map (\<lambda>(X, props).
                       map (\<lambda>h. case map_of (snd (snd (snd h))) ''id'' of None \<Rightarrow> [] | Some v \<Rightarrow> v)
                           (filter (scoped X) (desc_info t)))
                     iriElementsAndProperties)"
proof -
  have "map (\<lambda>e. element_id (nid e) t) (querySelectorAll_defs X t)
      = map (\<lambda>h. case map_of (snd (snd (snd h))) ''id'' of None \<Rightarrow> [] | Some v \<Rightarrow> v)
            (filter (scoped X) (desc_info t))" for X
  proof -
    have "map (\<lambda>e. element_id (nid e) t) (querySelectorAll_defs X t)
        = map (\<lambda>d. element_id d t) (map nid (querySelectorAll_defs X t))" by (simp add: comp_def)
    also have "\<dots> = map (\<lambda>h. element_id (fst (snd h)) t) (filter (scoped X) (desc_info t))"
      by (simp add: qsa_nids comp_def)
    also have "\<dots> = map (\<lambda>h. case map_of (snd (snd (snd h))) ''id'' of None \<Rightarrow> [] | Some v \<Rightarrow> v)
            (filter (scoped X) (desc_info t))"
      by (rule map_cong) (simp_all add: element_id_entry [OF assms])
    finally show ?thesis .
  qed
  then show ?thesis
    by (simp add: scoped_ids_def plan_def map_concat comp_def split_def)
qed

lemma pruning_scoped_ids:
  assumes "pruning r p" and "distinct (nids p)"
  shows "subseq (scoped_ids r) (scoped_ids p)"
proof -
  have el: "is_element r" "is_element p" using assms(1) by (simp_all add: pruning_def)
  have dr: "distinct (nids r)" using pruning_nids [OF assms(1)] assms(2) by (rule subseq_keeps_distinct)
  have sub: "subseq (desc_info r) (desc_info p)" using assms(1) by (simp add: pruning_def)
  show ?thesis
    unfolding scoped_ids_desc [OF el(1) dr] scoped_ids_desc [OF el(2) assms(2)]
    by (rule subseq_concat_map) (auto intro: subseq_map subseq_filter sub)
qed

lemma pruning_survivor:
  assumes "pruning r p" and "distinct (nids p)"
      and "(X, props) \<in> set iriElementsAndProperties"
      and "d \<in> set (map nid (querySelectorAll_defs X p))" and "d \<in> set (nids r)"
  shows "element_id d r = element_id d p" and "element_id d p \<in> set (scoped_ids r)"
proof -
  let ?idof = "\<lambda>h. case map_of (snd (snd (snd h))) ''id'' of None \<Rightarrow> [] | Some v \<Rightarrow> v"
  have el: "is_element r" "is_element p" "nid r = nid p" using assms(1) by (simp_all add: pruning_def)
  have dr: "distinct (nids r)" using pruning_nids [OF assms(1)] assms(2) by (rule subseq_keeps_distinct)
  have sub: "subseq (desc_info r) (desc_info p)" using assms(1) by (simp add: pruning_def)
  from assms(4) obtain h' where h': "h' \<in> set (desc_info p)" "scoped X h'" "fst (snd h') = d"
    by (auto simp: qsa_nids)
  have root: "d \<noteq> nid p" using h'(1,3) el(2) assms(2) by (force simp: nids_Element)
  show "element_id d r = element_id d p"
    using assms(1,2,5) root by (rule pruning_same(2))
  from assms(5) root el obtain h where h: "h \<in> set (desc_info r)" "fst (snd h) = d"
    by (auto simp: nids_Element)
  have hp: "h \<in> set (desc_info p)" using h(1) sub subseq_set by blast
  have dd: "distinct (map (\<lambda>h. fst (snd h)) (desc_info p))" using assms(2) el(2) by (simp add: nids_Element)
  have "h = h'" using dd hp h'(1) h(2) h'(3) by (intro same_entry [where f = "\<lambda>h. fst (snd h)"]) simp_all
  then have "h \<in> set (filter (scoped X) (desc_info r))" using h(1) h'(2) by simp
  then have "?idof h \<in> set (map ?idof (filter (scoped X) (desc_info r)))"
    unfolding set_map by (rule imageI)
  then have "?idof h \<in> set (scoped_ids r)"
    unfolding scoped_ids_desc [OF el(1) dr] using assms(3) by force
  moreover have "element_id d p = ?idof h" using element_id_entry [OF el(2) assms(2) hp] h(2) by simp
  ultimately show "element_id d p \<in> set (scoped_ids r)" by simp
qed

lemma literal_prepare_shape:
  assumes "is_element svg" and "distinct (nids svg)"
  shows "is_element (literal_prepare n svg)" and "nid (literal_prepare n svg) = nid svg"
    and "nids (literal_prepare n svg) = nids svg"
    and "map nid (querySelectorAll_defs X (literal_prepare n svg)) = map nid (querySelectorAll_defs X svg)"
    and "d \<in> set (map nid (querySelectorAll_defs X svg)) \<Longrightarrow> (X, props) \<in> set iriElementsAndProperties
           \<Longrightarrow> element_id d (literal_prepare n svg) = element_id d svg @ ''-'' @ dec n"
proof -
  obtain t where t: "same_below svg t"
    and pr: "literal_prepare n svg = removeAttribute ''xmlns:a'' (literal_rewrite_ids n t)"
    using literal_prepare_below [OF assms(1)] by blast
  have elt: "is_element t" and nidt: "nid t = nid svg" using t by (simp_all add: same_below_is_element)
  have dt: "distinct (nids t)" using t assms(2) by (simp add: same_below_nids)
  note rw = is_element_rewrite_ids [OF elt dt, of n]
  have below: "same_below (literal_rewrite_ids n t) (literal_prepare n svg)"
    unfolding pr using rw(1) by (rule same_below_removeAttribute)
  show "is_element (literal_prepare n svg)" using below by (simp add: same_below_is_element)
  show "nid (literal_prepare n svg) = nid svg" using below rw(2) nidt by (simp add: same_below_is_element)
  show "nids (literal_prepare n svg) = nids svg"
    using below rw(3) t by (simp add: same_below_nids)
  have q: "map nid (querySelectorAll_defs X (literal_rewrite_ids n t)) = map nid (querySelectorAll_defs X t)" for X
  proof -
    have "nid_plan [(X, [])] (literal_rewrite_ids n t) = nid_plan [(X, [])] t"
      using elt dt by (rule nid_plan_rewrite_ids)
    then have "map snd (nid_plan [(X, [])] (literal_rewrite_ids n t)) = map snd (nid_plan [(X, [])] t)"
      by simp
    then show ?thesis by (simp add: nid_plan_def comp_def)
  qed
  show "map nid (querySelectorAll_defs X (literal_prepare n svg)) = map nid (querySelectorAll_defs X svg)"
    using q [of X] by (simp add: same_below_queries [OF below] same_below_queries [OF t])
  assume d: "d \<in> set (map nid (querySelectorAll_defs X svg))"
     and X: "(X, props) \<in> set iriElementsAndProperties"
  then obtain e where e: "e \<in> set (querySelectorAll_defs X svg)" "d = nid e" by auto
  have root: "d \<noteq> nid svg" using query_not_root [OF assms e(1)] e(2) by simp
  have "e \<in> set (querySelectorAll_defs X t)" using e(1) by (simp add: same_below_queries [OF t])
  then have "(props, d) \<in> set (nid_plan iriElementsAndProperties t)"
    using X e(2) by (force simp: nid_plan_def)
  then have "d \<in> snd ` set (nid_plan iriElementsAndProperties t)" by force
  then have "element_id d (literal_rewrite_ids n t) = element_id d t @ ''-'' @ dec n"
    using elt dt by (intro element_id_rewrite_ids) simp_all
  moreover have "element_id d (literal_prepare n svg) = element_id d (literal_rewrite_ids n t)"
    using below root rw(2) nidt by (intro same_below_element_id) simp_all
  moreover have "element_id d t = element_id d svg" using t root by (rule same_below_element_id)
  ultimately show "element_id d (literal_prepare n svg) = element_id d svg @ ''-'' @ dec n" by simp
qed

lemma elements_map_attrs: "elements (map_attrs f n) = map (map_attrs f) (elements n)"
proof (induction n)
  case (Element i ns t a cs)
  have "concat (map (elements \<circ> map_attrs f) cs) = concat (map (map (map_attrs f) \<circ> elements) cs)"
    using Element by (intro arg_cong [where f = concat] map_cong) simp_all
  then show ?case by (simp add: map_concat)
qed simp

lemma descendants_map_attrs: "descendants (map_attrs f n) = map (map_attrs f) (descendants n)"
proof (cases n)
  case (Element i ns t a cs)
  have "concat (map (elements \<circ> map_attrs f) cs) = concat (map (map (map_attrs f) \<circ> elements) cs)"
    by (intro arg_cong [where f = concat] map_cong) (simp_all add: elements_map_attrs)
  with Element show ?thesis by (simp add: map_concat)
qed simp

lemma descendants_map_descendant_attrs:
  "descendants (map_descendant_attrs f n) = map (map_attrs f) (descendants n)"
proof (cases n)
  case (Element i ns t a cs)
  have "concat (map (elements \<circ> map_attrs f) cs) = concat (map (map (map_attrs f) \<circ> elements) cs)"
    by (intro arg_cong [where f = concat] map_cong) (simp_all add: elements_map_attrs)
  with Element show ?thesis by (simp add: map_concat)
qed simp

lemma tag_map_attrs [simp]: "tag (map_attrs f e) = tag e"
  by (cases e) simp_all

lemma nothing_pruned_map:
  "nothing_pruned (map_descendant_attrs f t) = nothing_pruned t"
  by (simp add: nothing_pruned_def descendants_map_descendant_attrs descendants_map_attrs
                list_all_iff)

lemma nothing_pruned_below: "same_below t t1 \<Longrightarrow> nothing_pruned t1 = nothing_pruned t"
  by (auto simp: same_below_def nothing_pruned_def)

lemma nothing_pruned_literal_prepare:
  assumes "is_element svg" and "distinct (nids svg)"
  shows "nothing_pruned (literal_prepare n svg) = nothing_pruned svg"
proof -
  obtain t where t: "same_below svg t"
    and pr: "literal_prepare n svg = removeAttribute ''xmlns:a'' (literal_rewrite_ids n t)"
    using literal_prepare_below [OF assms(1)] by blast
  have elt: "is_element t" using t by (simp add: same_below_is_element)
  have dt: "distinct (nids t)" using t assms(2) by (simp add: same_below_nids)
  obtain G where G: "literal_rewrite_ids n t = map_descendant_attrs G t"
    using literal_rewrite_ids_char [OF elt dt, of n] by blast
  have "same_below (literal_rewrite_ids n t) (literal_prepare n svg)"
    unfolding pr using is_element_rewrite_ids(1) [OF elt dt] by (rule same_below_removeAttribute)
  then have "nothing_pruned (literal_prepare n svg) = nothing_pruned (literal_rewrite_ids n t)"
    by (rule nothing_pruned_below)
  also have "\<dots> = nothing_pruned t" unfolding G by (rule nothing_pruned_map)
  also have "\<dots> = nothing_pruned svg" using t by (rule nothing_pruned_below)
  finally show ?thesis .
qed

lemma no_elements_no_info: "elements c = [] \<Longrightarrow> info b c = []"
  by (cases c) simp_all

lemma info_refresh_style_same:
  assumes "\<forall>e\<in>set (elements c). tag e = ''style'' \<longrightarrow> descendants e = []"
  shows "info b (refresh_style c) = info b c"
  using assms
proof (induction c arbitrary: b)
  case (Element i ns t a cs)
  show ?case
  proof (cases "t = ''style''")
    case True
    then have "concat (map elements cs) = []" using Element.prems by simp
    then have "\<forall>c\<in>set cs. elements c = []" by simp
    then have "concat (map (info (b \<or> t = ''defs'')) cs) = []"
      by (simp add: no_elements_no_info)
    with True show ?thesis by simp
  next
    case False
    have "concat (map (\<lambda>c. info (b \<or> t = ''defs'') (refresh_style c)) cs)
        = concat (map (info (b \<or> t = ''defs'')) cs)"
      using Element.prems by (intro arg_cong [where f = concat] map_cong refl Element.IH) auto
    with False show ?thesis by (simp add: comp_def)
  qed
qed simp

lemma nothing_pruned_result:
  assumes "nothing_pruned p" and "is_element p"
  shows "take_scripts p = Inr (p, [])" and "desc_info (refresh_styles p) = desc_info p"
    and "is_element (refresh_styles p)" and "nid (refresh_styles p) = nid p"
proof -
  have "querySelectorAll_tag ''script'' p = []"
    using assms(1) by (auto simp: querySelectorAll_tag_def nothing_pruned_def list_all_iff filter_empty_conv)
  then show "take_scripts p = Inr (p, [])" by (simp add: take_scripts_def)
  obtain i ns t a cs where p: "p = Element i ns t a cs" using assms(2) by (cases p) auto
  have "concat (map (\<lambda>c. info (t = ''defs'') (refresh_style c)) cs)
      = concat (map (info (t = ''defs'')) cs)"
  proof (intro arg_cong [where f = concat] map_cong refl)
    fix c assume "c \<in> set cs"
    then have "\<forall>e\<in>set (elements c). tag e = ''style'' \<longrightarrow> descendants e = []"
      using assms(1) p by (auto simp: nothing_pruned_def list_all_iff)
    then show "info (t = ''defs'') (refresh_style c) = info (t = ''defs'') c"
      by (rule info_refresh_style_same)
  qed
  then show "desc_info (refresh_styles p) = desc_info p" using p by (simp add: comp_def)
  show "is_element (refresh_styles p)" "nid (refresh_styles p) = nid p" using p by simp_all
qed

text \<open>The result tree of a clone whose identifiers are plain.\<close>

lemma result_tree_facts:
  assumes "is_element svg" and "distinct (nids svg)" and "plain_ids svg"
      and "result_tree env n svg = Some r"
  shows "pruning r (literal_prepare n svg)"
    and "nothing_pruned svg \<Longrightarrow> desc_info r = desc_info (literal_prepare n svg)"
proof -
  let ?p = "literal_prepare n svg"
  have p: "prepare env n svg = Inr ?p" using assms(3) by (rule prepare_plain)
  have elp: "is_element ?p" using assms(1,2) by (rule literal_prepare_shape(1))
  from assms(4) p obtain svg4 payloads where ts: "take_scripts ?p = Inr (svg4, payloads)"
    and r: "r = refresh_styles svg4"
    by (auto simp: result_tree_def prepared_def split: sum.splits)
  show "pruning r ?p" unfolding r using ts elp by (rule result_pruning)
  assume "nothing_pruned svg"
  then have np: "nothing_pruned ?p" using assms(1,2) by (simp add: nothing_pruned_literal_prepare)
  from nothing_pruned_result(1) [OF np elp] ts have "svg4 = ?p" by simp
  then show "desc_info r = desc_info ?p" using r nothing_pruned_result(2) [OF np elp] by simp
qed

lemma result_tree_identifiers:
  assumes "is_element svg" and "distinct (nids svg)" and "plain_ids svg"
      and "result_tree env n svg = Some r"
  shows "nid r = nid svg" and "subseq (nids r) (nids svg)"
    and "subseq (scoped_ids r) (map (\<lambda>i. i @ ''-'' @ dec n) (scoped_ids svg))"
    and "nothing_pruned svg \<Longrightarrow>
           nids r = nids svg \<and> scoped_ids r = map (\<lambda>i. i @ ''-'' @ dec n) (scoped_ids svg)"
    and "(X, props) \<in> set iriElementsAndProperties \<Longrightarrow> e \<in> set (querySelectorAll_defs X svg)
           \<Longrightarrow> nid e \<in> set (nids r)
           \<Longrightarrow> element_id (nid e) r = element_id (nid e) svg @ ''-'' @ dec n
               \<and> element_id (nid e) r \<in> set (scoped_ids r)"
    and "x \<in> set (nids r) \<Longrightarrow> x \<noteq> nid svg \<Longrightarrow> p \<noteq> ''id''
           \<Longrightarrow> attribute_of r x p = map_option (follow n p (plan svg)) (attribute_of svg x p)"
proof -
  let ?p = "literal_prepare n svg"
  note sh = literal_prepare_shape [OF assms(1,2), where n = n]
  note pf = literal_prepare_facts [OF assms(1,2), where n = n]
  have pr: "pruning r ?p" using assms by (rule result_tree_facts(1))
  have dp: "distinct (nids ?p)" using sh(3) assms(2) by simp
  have elr: "is_element r" using pr by (simp add: pruning_def)
  show "nid r = nid svg" using pr sh(2) by (simp add: pruning_def)
  show sn: "subseq (nids r) (nids svg)" using pruning_nids [OF pr] sh(3) by simp
  show "subseq (scoped_ids r) (map (\<lambda>i. i @ ''-'' @ dec n) (scoped_ids svg))"
    using pruning_scoped_ids [OF pr dp] pf(1) by simp
  show "nids r = nids svg \<and> scoped_ids r = map (\<lambda>i. i @ ''-'' @ dec n) (scoped_ids svg)"
    if "nothing_pruned svg"
  proof -
    have di: "desc_info r = desc_info ?p" using assms that by (rule result_tree_facts(2))
    have n: "nids r = nids svg"
      using di elr sh(1) \<open>nid r = nid svg\<close> sh(2,3) by (simp add: nids_Element)
    then have dr: "distinct (nids r)" using assms(2) by simp
    have "scoped_ids r = scoped_ids ?p"
      unfolding scoped_ids_desc [OF elr dr] scoped_ids_desc [OF sh(1) dp] di ..
    with n pf(1) show ?thesis by simp
  qed
  show "element_id (nid e) r = element_id (nid e) svg @ ''-'' @ dec n
               \<and> element_id (nid e) r \<in> set (scoped_ids r)"
    if "(X, props) \<in> set iriElementsAndProperties" "e \<in> set (querySelectorAll_defs X svg)"
       "nid e \<in> set (nids r)"
  proof -
    have d: "nid e \<in> set (map nid (querySelectorAll_defs X svg))" using that(2) by simp
    then have dq: "nid e \<in> set (map nid (querySelectorAll_defs X ?p))" using sh(4) by simp
    note sv = pruning_survivor [OF pr dp that(1) dq that(3)]
    have "element_id (nid e) ?p = element_id (nid e) svg @ ''-'' @ dec n"
      using d that(1) by (rule sh(5))
    with sv show ?thesis by simp
  qed
  show "attribute_of r x p = map_option (follow n p (plan svg)) (attribute_of svg x p)"
    if "x \<in> set (nids r)" "x \<noteq> nid svg" "p \<noteq> ''id''"
  proof -
    have "attribute_of r x p = attribute_of ?p x p"
      using pr dp that(1) that(2) sh(2) by (intro pruning_same(1)) simp_all
    with pf(2) [OF that(2,3)] show ?thesis by simp
  qed
qed

lemma plain_ids_cloneNode:
  "plain_ids (fst (cloneNode f n)) = plain_ids n"
  "list_all plain_ids (fst (cloneNodes f cs)) = list_all plain_ids cs"
  by (induction f n and f cs rule: cloneNode_cloneNodes.induct) (auto split: prod.splits)

lemma clone_well_formed:
  assumes "is_element root"
  shows "is_element (fst (cloneNode f root))" and "distinct (nids (fst (cloneNode f root)))"
    and "plain_ids (fst (cloneNode f root)) = plain_ids root"
  using assms by (simp_all add: is_element_cloneNode nids_cloneNode(1) plain_ids_cloneNode(1))

lemma inject_success_tree:
  assumes "fst (inject env k (Svg svg) st) = None"
  shows "\<exists>r. result_tree env (injectCount st) svg = Some r
           \<and> replaceChild r (el k) (document st) = Inr (document (snd (inject env k (Svg svg) st)))"
proof (cases "prepared env (injectCount st) svg")
  case (Inl e)
  with assms show ?thesis by (simp add: inject_def)
next
  case (Inr p)
  obtain svg4 ss where p: "p = (svg4, ss)" by (cases p)
  obtain x r where st1: "snd (run_scripts env (evalScripts k) (imgUrl k) ss st) = st\<lparr>executed := x, ranScripts := r\<rparr>"
    using run_scripts_frame by blast
  obtain e s1 where rs: "run_scripts env (evalScripts k) (imgUrl k) ss st = (e, s1)"
    by (cases "run_scripts env (evalScripts k) (imgUrl k) ss st")
  with st1 have s1: "s1 = st\<lparr>executed := x, ranScripts := r\<rparr>" by simp
  have rt: "result_tree env (injectCount st) svg = Some (refresh_styles svg4)"
    using Inr p by (simp add: result_tree_def)
  show ?thesis
  proof (cases e)
    case (Some a)
    with Inr p rs assms show ?thesis by (simp add: inject_def)
  next
    case None
    show ?thesis
    proof (cases "replaceChild (refresh_styles svg4) (el k) (document s1)")
      case (Inl a)
      with None \<open>prepared env (injectCount st) svg = Inr p\<close> p rs assms
      show ?thesis by (simp add: inject_def)
    next
      case (Inr forest)
      have "document (call (callback k) [Null, node_ref (refresh_styles svg4)]
              (s1\<lparr>document := forest,
                  injectedElements := delete_first (el k) (injectedElements s1),
                  injectCount := js_incr (injectCount s1)\<rparr>)) = forest"
        by (cases "callback k") (simp_all add: call_def)
      with None \<open>prepared env (injectCount st) svg = Inr p\<close> p rs s1 Inr rt
      show ?thesis by (simp add: inject_def)
    qed
  qed
qed

text \<open>
  C2, as the code has it. Take two cloned trees (the nodes of a clone are distinct
  objects, and it has the attributes of the file's tree) in which every \<^verbatim>\<open>id\<close> is
  plain: free of double quotes, backslashes, line breaks and NUL, so that it stands for
  itself in the selector of line 245. Let \<open>r\<close> and \<open>r'\<close> be the result trees of
  injections with different counters \<open>n\<close> and \<open>m\<close>: the trees that take the place of the
  placeholders. The elements of \<open>r\<close> are elements of the clone. The identifiers of the
  definitions in scope in \<open>r\<close> (elements of one of the nine tags, with an \<^verbatim>\<open>id\<close>, below
  a \<^verbatim>\<open>defs\<close>) are, in order, identifiers of the clone followed by \<^verbatim>\<open>-\<close> and the
  counter, and they are all of them when the clone has no \<^verbatim>\<open>script\<close> element and no
  element inside a \<^verbatim>\<open>style\<close> element; the identifiers of \<open>r\<close> and \<open>r'\<close> are disjoint.
  A definition of the clone that is still in \<open>r\<close> has its old identifier followed by
  \<^verbatim>\<open>-\<close> and the counter, and is in scope there. On every element of \<open>r\<close> other than
  the root, an attribute \<open>p\<close> whose value contained the identifier \<open>i\<close> of a
  definition whose table entry lists \<open>p\<close> is \<^verbatim>\<open>url(#j-n)\<close> for a definition \<open>j\<close> of
  the clone whose entry lists \<open>p\<close>; and it is \<^verbatim>\<open>url(#i-n)\<close>, naming the definition it
  referred to, when no other identifier of such a definition is contained in the value
  or in \<^verbatim>\<open>url(#i-n)\<close>. An injection of the clone that succeeds with counter \<open>n\<close> puts
  \<open>r\<close> in the place of its placeholder. The counters do differ: an injection that
  succeeds increments \<^verbatim>\<open>injectCount\<close> (as long as it is below \<open>2^53\<close>) and no step
  decrements it, so an injection in a later state rewrites with another counter.
\<close>

theorem rewritten_identifiers_disjoint_references_follow:
  assumes "is_element svg" and "distinct (nids svg)" and "plain_ids svg"
      and "is_element svg'" and "distinct (nids svg')" and "plain_ids svg'"
      and "result_tree env n svg = Some r" and "result_tree env m svg' = Some r'"
      and "n \<noteq> m"
  shows "nid r = nid svg \<and> subseq (nids r) (nids svg)
       \<and> subseq (scoped_ids r) (map (\<lambda>i. i @ ''-'' @ dec n) (scoped_ids svg))
       \<and> (nothing_pruned svg
             \<longrightarrow> nids r = nids svg
                 \<and> scoped_ids r = map (\<lambda>i. i @ ''-'' @ dec n) (scoped_ids svg))
       \<and> set (scoped_ids r) \<inter> set (scoped_ids r') = {}
       \<and> (\<forall>X props e.
             (X, props) \<in> set iriElementsAndProperties \<and> e \<in> set (querySelectorAll_defs X svg)
             \<and> nid e \<in> set (nids r)
             \<longrightarrow> element_id (nid e) r = element_id (nid e) svg @ ''-'' @ dec n
                 \<and> element_id (nid e) r \<in> set (scoped_ids r))
       \<and> (\<forall>x p props i v.
             x \<in> set (nids r) \<and> x \<noteq> nid svg \<and> (props, i) \<in> set (plan svg) \<and> p \<in> set props
             \<and> attribute_of svg x p = Some v \<and> mentions v i
             \<longrightarrow> (\<exists>(props', j)\<in>set (plan svg). p \<in> set props'
                      \<and> attribute_of r x p = Some (url_ref (j @ ''-'' @ dec n)))
                 \<and> ((\<forall>(props', j)\<in>set (plan svg). p \<in> set props' \<longrightarrow> j \<noteq> i
                         \<longrightarrow> \<not> mentions v j \<and> \<not> mentions (url_ref (i @ ''-'' @ dec n)) j)
                      \<longrightarrow> attribute_of r x p = Some (url_ref (i @ ''-'' @ dec n))))
       \<and> (\<forall>f root. is_element root
             \<longrightarrow> is_element (fst (cloneNode f root)) \<and> distinct (nids (fst (cloneNode f root)))
                 \<and> plain_ids (fst (cloneNode f root)) = plain_ids root)
       \<and> (\<forall>k st. fst (inject env k (Svg svg) st) = None \<and> injectCount st = n
             \<longrightarrow> replaceChild r (el k) (document st)
                   = Inr (document (snd (inject env k (Svg svg) st))))
       \<and> (\<forall>env k svg0 st st'.
             fst (inject env k (Svg svg0) st) = None
             \<and> later env (snd (inject env k (Svg svg0) st)) st'
             \<and> int (injectCount st) < 9007199254740992
             \<longrightarrow> injectCount st \<noteq> injectCount st')"
proof -
  note R = result_tree_identifiers [OF assms(1,2,3,7)]
  note R' = result_tree_identifiers [OF assms(4,5,6,8)]
  have shape: "nid r = nid svg \<and> subseq (nids r) (nids svg)" using R(1,2) by simp
  have ids: "subseq (scoped_ids r) (map (\<lambda>i. i @ ''-'' @ dec n) (scoped_ids svg))" by (rule R(3))
  have all: "nothing_pruned svg
             \<longrightarrow> nids r = nids svg
                 \<and> scoped_ids r = map (\<lambda>i. i @ ''-'' @ dec n) (scoped_ids svg)"
    using R(4) by blast
  have "set (scoped_ids r) \<subseteq> set (map (\<lambda>i. i @ ''-'' @ dec n) (scoped_ids svg))"
    using R(3) by (rule subseq_set)
  moreover have "set (scoped_ids r') \<subseteq> set (map (\<lambda>i. i @ ''-'' @ dec m) (scoped_ids svg'))"
    using R'(3) by (rule subseq_set)
  moreover have "set (map (\<lambda>i. i @ ''-'' @ dec n) (scoped_ids svg))
                   \<inter> set (map (\<lambda>i. i @ ''-'' @ dec m) (scoped_ids svg')) = {}"
    using assms(9) by (rule suffixed_disjoint)
  ultimately have disj: "set (scoped_ids r) \<inter> set (scoped_ids r') = {}" by blast
  have defs: "\<forall>X props e.
             (X, props) \<in> set iriElementsAndProperties \<and> e \<in> set (querySelectorAll_defs X svg)
             \<and> nid e \<in> set (nids r)
             \<longrightarrow> element_id (nid e) r = element_id (nid e) svg @ ''-'' @ dec n
                 \<and> element_id (nid e) r \<in> set (scoped_ids r)"
    using R(5) by blast
  have refs: "(\<exists>(props', j)\<in>set (plan svg). p \<in> set props'
                      \<and> attribute_of r x p = Some (url_ref (j @ ''-'' @ dec n)))
                 \<and> ((\<forall>(props', j)\<in>set (plan svg). p \<in> set props' \<longrightarrow> j \<noteq> i
                         \<longrightarrow> \<not> mentions v j \<and> \<not> mentions (url_ref (i @ ''-'' @ dec n)) j)
                      \<longrightarrow> attribute_of r x p = Some (url_ref (i @ ''-'' @ dec n)))"
    if h: "x \<in> set (nids r)" "x \<noteq> nid svg" "(props, i) \<in> set (plan svg)" "p \<in> set props"
          "attribute_of svg x p = Some v" "mentions v i"
    for x p props i v
  proof -
    have "props \<in> snd ` set iriElementsAndProperties"
      using h(3) by (force simp: plan_def)
    then have "''id'' \<notin> set props" using table_ok(2) by auto
    then have p: "p \<noteq> ''id''" using h(4) by auto
    have attr: "attribute_of r x p = Some (follow n p (plan svg) v)"
      using R(6) [OF h(1,2) p] h(5) by simp
    from follow_lenient [OF h(3,4,6), of n] obtain props' j
      where j: "(props', j) \<in> set (plan svg)" "p \<in> set props'"
        "follow n p (plan svg) v = url_ref (j @ ''-'' @ dec n)" by blast
    with attr
    have one: "\<exists>(props', j)\<in>set (plan svg). p \<in> set props'
                      \<and> attribute_of r x p = Some (url_ref (j @ ''-'' @ dec n))"
      by force
    have two: "attribute_of r x p = Some (url_ref (i @ ''-'' @ dec n))"
      if "\<forall>(props', j)\<in>set (plan svg). p \<in> set props' \<longrightarrow> j \<noteq> i
                         \<longrightarrow> \<not> mentions v j \<and> \<not> mentions (url_ref (i @ ''-'' @ dec n)) j"
      using follow_strict [OF h(3,4,6) that] attr by simp
    from one two show ?thesis by blast
  qed
  have clones: "\<forall>f root. is_element root
             \<longrightarrow> is_element (fst (cloneNode f root)) \<and> distinct (nids (fst (cloneNode f root)))
                 \<and> plain_ids (fst (cloneNode f root)) = plain_ids root"
    using clone_well_formed by blast
  have place: "replaceChild r (el k) (document st)
                   = Inr (document (snd (inject env k (Svg svg) st)))"
    if "fst (inject env k (Svg svg) st) = None" "injectCount st = n" for k st
    using inject_success_tree [OF that(1)] that(2) assms(7) by auto
  have counters: "\<forall>env k svg0 st st'.
             fst (inject env k (Svg svg0) st) = None
             \<and> later env (snd (inject env k (Svg svg0) st)) st'
             \<and> int (injectCount st) < 9007199254740992
             \<longrightarrow> injectCount st \<noteq> injectCount st'"
    using later_counter_differs by blast
  from shape ids all disj defs refs clones place counters show ?thesis by blast
qed

theorem rewritten_identifiers_disjoint_references_follow_witness:
  "is_element one_reference \<and> distinct (nids one_reference) \<and> plain_ids one_reference
   \<and> nothing_pruned one_reference
   \<and> result_tree env0 0 one_reference = Some (one_reference_result ''0'')
   \<and> result_tree env0 1 one_reference = Some (one_reference_result ''1'')
   \<and> scoped_ids one_reference = [''c1'']
   \<and> scoped_ids (one_reference_result ''0'') = [''c1-0'']
   \<and> scoped_ids (one_reference_result ''1'') = [''c1-1'']
   \<and> set (scoped_ids (one_reference_result ''0'')) \<inter> set (scoped_ids (one_reference_result ''1'')) = {}
   \<and> attribute_of one_reference 3 ''clip-path'' = Some ''url(#c1)''
   \<and> attribute_of (one_reference_result ''0'') 3 ''clip-path'' = Some ''url(#c1-0)''"
proof -
  have a: "is_element one_reference" and b: "distinct (nids one_reference)"
    and pl: "plain_ids one_reference" and np: "nothing_pruned one_reference" by code_simp+
  have r0: "result_tree env0 0 one_reference = Some (one_reference_result ''0'')" by code_simp
  have r1: "result_tree env0 1 one_reference = Some (one_reference_result ''1'')" by code_simp
  have c: "(0::nat) \<noteq> 1" by simp
  have ids: "scoped_ids one_reference = [''c1'']" by code_simp
  have pn: "plan one_reference = [([''clip-path''], ''c1'')]" by code_simp
  have d0: "dec 0 = ''0''" and d1: "dec 1 = ''1''" by code_simp+
  have x: "3 \<in> set (nids (one_reference_result ''0''))" "3 \<noteq> nid one_reference" by code_simp+
  have v: "attribute_of one_reference 3 ''clip-path'' = Some ''url(#c1)''" by code_simp
  have mv: "mentions ''url(#c1)'' ''c1''" by code_simp
  have u: "url_ref ''c1-0'' = ''url(#c1-0)''" by code_simp
  note t = rewritten_identifiers_disjoint_references_follow [OF a b pl a b pl r0 r1 c]
  note t' = rewritten_identifiers_disjoint_references_follow [OF a b pl a b pl r1 r0 c [symmetric]]
  have s0: "scoped_ids (one_reference_result ''0'') = [''c1-0'']"
    using t np ids d0 by simp
  have s1: "scoped_ids (one_reference_result ''1'') = [''c1-1'']"
    using t' np ids d1 by simp
  have dj: "set (scoped_ids (one_reference_result ''0'')) \<inter> set (scoped_ids (one_reference_result ''1'')) = {}"
    using t by blast
  have "attribute_of (one_reference_result ''0'') 3 ''clip-path''
          = Some (url_ref (''c1'' @ ''-'' @ dec 0))"
    using t x v mv pn by simp
  then have r: "attribute_of (one_reference_result ''0'') 3 ''clip-path'' = Some ''url(#c1-0)''"
    using d0 u by simp
  from a b pl np r0 r1 ids s0 s1 dj v r show ?thesis by blast
qed

text \<open>
  C2 as stated has every referencing attribute follow its definition. With the
  identifiers \<^verbatim>\<open>a\<close> and \<^verbatim>\<open>ab\<close> in scope, the attribute \<^verbatim>\<open>clip-path="url(#ab)"\<close>
  contains \<^verbatim>\<open>a\<close> as well, the selector is a substring match, and in the result tree the
  attribute is \<^verbatim>\<open>url(#a-0)\<close> while the definition it referred to is \<^verbatim>\<open>ab-0\<close>. An
  attribute of the root element is never rewritten, \<^verbatim>\<open>querySelectorAll\<close> returning
  descendants only: it keeps \<^verbatim>\<open>url(#c)\<close> when the definition has become \<^verbatim>\<open>c-0\<close>. And
  a definition inside a \<^verbatim>\<open>style\<close> element is renamed, the reference to it rewritten,
  and then the definition is lost when line 308 replaces the content of the
  \<^verbatim>\<open>style\<close> element by its text: the result tree refers to \<^verbatim>\<open>c-0\<close> and has no
  definition.
\<close>

theorem reference_lost_to_overlapping_identifier:
  "distinct (nids overlapping_ids) \<and> plain_ids overlapping_ids
   \<and> plan overlapping_ids = [([''clip-path''], ''a''), ([''clip-path''], ''ab'')]
   \<and> attribute_of overlapping_ids 4 ''clip-path'' = Some ''url(#ab)''
   \<and> element_id 3 overlapping_ids = ''ab''
   \<and> map_option (element_id 3) (result_tree env0 0 overlapping_ids) = Some ''ab-0''
   \<and> map_option (\<lambda>r. attribute_of r 4 ''clip-path'') (result_tree env0 0 overlapping_ids)
       = Some (Some ''url(#a-0)'')
   \<and> distinct (nids root_reference) \<and> plain_ids root_reference
   \<and> attribute_of root_reference 0 ''clip-path'' = Some ''url(#c)''
   \<and> map_option scoped_ids (result_tree env0 0 root_reference) = Some [''c-0'']
   \<and> map_option (\<lambda>r. attribute_of r 0 ''clip-path'') (result_tree env0 0 root_reference)
       = Some (Some ''url(#c)'')
   \<and> distinct (nids style_definition) \<and> plain_ids style_definition
   \<and> scoped_ids style_definition = [''c'']
   \<and> attribute_of style_definition 4 ''clip-path'' = Some ''url(#c)''
   \<and> map_option scoped_ids (result_tree env0 0 style_definition) = Some []
   \<and> map_option (\<lambda>r. attribute_of r 4 ''clip-path'') (result_tree env0 0 style_definition)
       = Some (Some ''url(#c-0)'')"
  by code_simp

end
